theory Spec2Isabelle
  imports Main
begin

section \<open>The determinant of mathjs: src/function/matrix/det.js\<close>

subsection \<open>JavaScript values, errors and collaborators\<close>

text \<open>
  The values \<open>det\<close> handles: \<open>undefined\<close>, a scalar of the generic numeric type
  \<open>'a\<close>, a plain (nested) array, and a Matrix object. A Matrix object is known to
  \<open>det\<close> only through its methods \<open>size()\<close> and \<open>valueOf()\<close>: \<open>Mat s d\<close> is the
  Matrix whose \<open>size()\<close> is \<open>s\<close> and whose \<open>valueOf()\<close> (the backing store) is \<open>d\<close>.
\<close>

datatype 'a val = Undef | El 'a | Arr "'a val list" | Mat "nat list" "'a val"

text \<open>
  What a call can throw. \<open>RangeError\<close> is the only exception \<open>det\<close> constructs itself
  (with its message); \<open>TypeError\<close> is what the JavaScript runtime throws on reading a
  property of \<open>undefined\<close>; \<open>Thrown e\<close> is an exception \<open>e\<close> raised inside a
  collaborator (\<open>lup\<close>, \<open>matrix\<close>), which \<open>det\<close> does not catch.
\<close>

datatype 'e error = RangeError string | TypeError | Thrown 'e

text \<open>The object \<open>{ L, U, p }\<close> returned by \<open>lup\<close>.\<close>

record 'a decomp =
  decomp_L :: "'a val"
  decomp_U :: "'a val"
  decomp_p :: "nat list"

text \<open>
  The dependencies injected by \<open>factory\<close> (line 11) and the imported \<open>format\<close>. None of
  them is defined in det.js, so they are parameters: the arithmetic is total on values,
  \<open>lup\<close> and the Matrix constructor \<open>matrix\<close> may throw. \<open>matrix\<close> returns the size and
  the backing store of the Matrix it builds.
\<close>

record ('a, 'e) ops =
  subtract :: "'a val \<Rightarrow> 'a val \<Rightarrow> 'a val"
  multiply :: "'a val \<Rightarrow> 'a val \<Rightarrow> 'a val"
  unaryMinus :: "'a val \<Rightarrow> 'a val"
  lup :: "'a val \<Rightarrow> 'e + 'a decomp"
  matrix :: "'a val \<Rightarrow> 'e + nat list \<times> 'a val"
  format :: "nat list \<Rightarrow> string"

text \<open>
  Modelled from the spec: \<open>clone\<close> (utils/object) and the method \<open>x.clone()\<close> are not
  in det.js. The spec calls both a deep copy equal to the original; on immutable values
  that is the value itself.
\<close>

definition clone :: "'a val \<Rightarrow> 'a val" where
  "clone x = x"

text \<open>
  The read \<open>a[i]\<close>. An index past the end of an array reads \<open>undefined\<close>; so does any
  index of a numeric scalar or of a Matrix object; reading a property of \<open>undefined\<close>
  throws.
\<close>

fun js_get :: "'a val \<Rightarrow> nat \<Rightarrow> 'e error + 'a val" where
  "js_get (Arr xs) i = Inr (if i < length xs then xs ! i else Undef)"
| "js_get Undef i = Inl TypeError"
| "js_get (El v) i = Inr Undef"
| "js_get (Mat s d) i = Inr Undef"

definition js_get2 :: "'a val \<Rightarrow> nat \<Rightarrow> nat \<Rightarrow> 'e error + 'a val" where
  "js_get2 a i j = (case js_get a i of Inl e \<Rightarrow> Inl e | Inr r \<Rightarrow> js_get r j)"

subsection \<open>The cycle scan (lines 118 to 136)\<close>

text \<open>
  \<open>decomp.p[j]\<close>, where \<open>j\<close> is a number or \<open>undefined\<close> (\<open>None\<close>): past the end of \<open>p\<close>,
  and at \<open>undefined\<close>, the read gives \<open>undefined\<close>.
\<close>

definition p_at :: "nat list \<Rightarrow> nat option \<Rightarrow> nat option" where
  "p_at p j = (case j of None \<Rightarrow> None | Some k \<Rightarrow> if k < length p then Some (p ! k) else None)"

text \<open>
  The sparse array \<open>visited\<close> only ever receives the value \<open>true\<close>; it is kept as the
  list of the keys that were assigned, the latest first. \<open>visited[k]\<close> is truthy iff
  \<open>k\<close> is in the list.

  \<open>while (visited[i]) { i++ }\<close>
\<close>

function skip_visited :: "nat option list \<Rightarrow> nat \<Rightarrow> nat" where
  "skip_visited visited i = (if Some i \<in> set visited then skip_visited visited (i + 1) else i)"
  by pat_completeness auto

termination skip_visited
proof (relation "measure (\<lambda>(visited, i). sum_list (map (\<lambda>k. case k of None \<Rightarrow> 0 | Some n \<Rightarrow> Suc n) visited) - i)")
  show "wf (measure (\<lambda>(visited, i). sum_list (map (\<lambda>k. case k of None \<Rightarrow> 0 | Some n \<Rightarrow> Suc n) visited) - i))"
    by simp
next
  fix visited :: "nat option list" and i :: nat
  assume "Some i \<in> set visited"
  then have "(case Some i of None \<Rightarrow> 0 | Some n \<Rightarrow> Suc n)
      \<in> set (map (\<lambda>k. case k of None \<Rightarrow> 0 | Some n \<Rightarrow> Suc n) visited)"
    by (simp only: set_map) (rule imageI)
  then have "(case Some i of None \<Rightarrow> 0 | Some n \<Rightarrow> Suc n) \<le> sum_list (map (\<lambda>k. case k of None \<Rightarrow> 0 | Some n \<Rightarrow> Suc n) visited)"
    by (rule member_le_sum_list) simp
  then have "Suc i \<le> sum_list (map (\<lambda>k. case k of None \<Rightarrow> 0 | Some n \<Rightarrow> Suc n) visited)"
    by simp
  then show "((visited, i + 1), (visited, i))
      \<in> measure (\<lambda>(visited, i). sum_list (map (\<lambda>k. case k of None \<Rightarrow> 0 | Some n \<Rightarrow> Suc n) visited) - i)"
    by simp
qed

declare skip_visited.simps [simp del]

text \<open>
  \<open>while (!visited[decomp.p[j]]) { visited[decomp.p[j]] = true; j = decomp.p[j]; cycleLen++ }\<close>
\<close>

function follow_cycle ::
  "nat list \<Rightarrow> nat option list \<Rightarrow> nat option \<Rightarrow> nat \<Rightarrow> nat option list \<times> nat option \<times> nat" where
  "follow_cycle p visited j cycleLen =
     (if p_at p j \<notin> set visited
      then follow_cycle p (p_at p j # visited) (p_at p j) (cycleLen + 1)
      else (visited, j, cycleLen))"
  by pat_completeness auto

termination follow_cycle
proof (relation "measure (\<lambda>(p, visited, j, cycleLen). card (insert None (Some ` set p) - set visited))")
  show "wf (measure (\<lambda>(p, visited, j, cycleLen). card (insert None (Some ` set p) - set visited)))"
    by simp
next
  fix p :: "nat list" and visited :: "nat option list" and j :: "nat option" and cycleLen :: nat
  assume new: "p_at p j \<notin> set visited"
  have mem: "p_at p j \<in> insert None (Some ` set p)"
    by (cases j) (simp_all add: p_at_def)
  have fin: "finite (insert None (Some ` set p) - set visited)"
    by simp
  have "insert None (Some ` set p) - set (p_at p j # visited)
      = (insert None (Some ` set p) - set visited) - {p_at p j}"
    unfolding list.set by (rule Diff_insert)
  moreover have "p_at p j \<in> insert None (Some ` set p) - set visited"
    using mem new by (simp only: Diff_iff simp_thms)
  ultimately have "card (insert None (Some ` set p) - set (p_at p j # visited))
      < card (insert None (Some ` set p) - set visited)"
    using fin by (metis card_Diff1_less)
  then show "((p, p_at p j # visited, p_at p j, cycleLen + 1), (p, visited, j, cycleLen))
      \<in> measure (\<lambda>(p, visited, j, cycleLen). card (insert None (Some ` set p) - set visited))"
    by simp
qed

declare follow_cycle.simps [simp del]

text \<open>
  The outer loop \<open>while (true) { ... }\<close> with its \<open>break\<close>. Nothing in the code bounds
  it (when \<open>p\<close> is not a permutation it can run forever), so it is a partial function:
  \<open>None\<close> is "does not return". It returns the three variables of the scan as they
  are at the \<open>break\<close>.
\<close>

partial_function (option) count_cycles ::
  "nat list \<Rightarrow> nat \<Rightarrow> nat \<Rightarrow> nat \<Rightarrow> nat option list \<Rightarrow> (nat \<times> nat \<times> nat option list) option" where
  "count_cycles p rows evenCycles i visited =
     (let i' = skip_visited visited i in
      if i' \<ge> rows then Some (evenCycles, i', visited)
      else (case follow_cycle p visited (Some i') 0 of
              (visited', j, cycleLen) \<Rightarrow>
                count_cycles p rows (if cycleLen mod 2 = 0 then evenCycles + 1 else evenCycles)
                  i' visited'))"

declare count_cycles.simps [code]

subsection \<open>The evaluator \<open>_det\<close> (lines 95 to 140)\<close>

text \<open>\<open>for (let i = 1; i < rows; i++) { det = multiply(det, decomp.U[i][i]) }\<close>\<close>

function diag_product ::
  "('a, 'e) ops \<Rightarrow> 'a val \<Rightarrow> nat \<Rightarrow> nat \<Rightarrow> 'a val \<Rightarrow> 'e error + 'a val" where
  "diag_product ops u rows i det =
     (if i < rows
      then (case js_get2 u i i of
              Inl e \<Rightarrow> Inl e
            | Inr d \<Rightarrow> diag_product ops u rows (i + 1) (multiply ops det d))
      else Inr det)"
  by pat_completeness auto

termination diag_product
  by (relation "measure (\<lambda>(ops, u, rows, i, det). rows - i)") simp_all

declare diag_product.simps [simp del]

text \<open>
  \<open>_det(matrix, rows, cols)\<close>. The result is \<open>None\<close> when the call does not return,
  \<open>Some (Inl e)\<close> when it throws \<open>e\<close>, \<open>Some (Inr v)\<close> when it returns \<open>v\<close>.
\<close>

definition private_det ::
  "('a, 'e) ops \<Rightarrow> 'a val \<Rightarrow> nat \<Rightarrow> nat \<Rightarrow> ('e error + 'a val) option" where
  "private_det ops m rows cols =
     (if rows = 1 then
        (case js_get2 m 0 0 of Inl e \<Rightarrow> Some (Inl e) | Inr a \<Rightarrow> Some (Inr (clone a)))
      else if rows = 2 then
        (case js_get2 m 0 0 of Inl e \<Rightarrow> Some (Inl e) | Inr a00 \<Rightarrow>
        (case js_get2 m 1 1 of Inl e \<Rightarrow> Some (Inl e) | Inr a11 \<Rightarrow>
        (case js_get2 m 1 0 of Inl e \<Rightarrow> Some (Inl e) | Inr a10 \<Rightarrow>
        (case js_get2 m 0 1 of Inl e \<Rightarrow> Some (Inl e) | Inr a01 \<Rightarrow>
           Some (Inr (subtract ops (multiply ops a00 a11) (multiply ops a10 a01)))))))
      else
        (case lup ops m of Inl e \<Rightarrow> Some (Inl (Thrown e)) | Inr dc \<Rightarrow>
        (case js_get2 (decomp_U dc) 0 0 of Inl e \<Rightarrow> Some (Inl e) | Inr d0 \<Rightarrow>
        (case diag_product ops (decomp_U dc) rows 1 d0 of Inl e \<Rightarrow> Some (Inl e) | Inr d \<Rightarrow>
        (case count_cycles (decomp_p dc) rows 0 0 [] of
           None \<Rightarrow> None
         | Some (evenCycles, i, visited) \<Rightarrow>
             Some (Inr (if evenCycles mod 2 = 0 then d else unaryMinus ops d)))))))"

subsection \<open>The entry point \<open>det\<close> (lines 37 to 85)\<close>

text \<open>
  What the body of \<open>det\<close> does with its argument before any determinant is computed:
  it returns a value, or it calls \<open>_det(matrix, rows, cols)\<close> (line 73) and returns what
  that returns, or it throws.
\<close>

datatype 'a action = Return "'a val" | Delegate "'a val" nat nat

text \<open>The \<open>switch (size.length)\<close> of lines 54 to 83, for the Matrix \<open>x = Mat sz d\<close> (\<open>sz\<close> is the variable \<open>size\<close>).\<close>

definition dispatch_size :: "('a, 'e) ops \<Rightarrow> nat list \<Rightarrow> 'a val \<Rightarrow> 'e error + 'a action" where
  "dispatch_size ops sz d =
     (case sz of
        [] \<Rightarrow> Inr (Return (clone (Mat sz d)))
      | [len] \<Rightarrow>
          if len = 1
          then (case js_get d 0 of Inl e \<Rightarrow> Inl e | Inr v \<Rightarrow> Inr (Return (clone v)))
          else Inl (RangeError (''Matrix must be square '' @ ''(size: '' @ format ops sz @ '')''))
      | [rows, cols] \<Rightarrow>
          if rows = cols
          then Inr (Delegate (clone d) rows cols)
          else Inl (RangeError (''Matrix must be square '' @ ''(size: '' @ format ops sz @ '')''))
      | _ \<Rightarrow>
          Inl (RangeError (''Matrix must be two dimensional '' @ ''(size: '' @ format ops sz @ '')'')))"

text \<open>
  The typed dispatch of lines 37 to 52. A Matrix reports its size; a plain array is first
  turned into a Matrix by \<open>matrix(x)\<close>; anything else takes the signature \<open>'any'\<close> and is
  cloned (the \<open>else\<close> of line 49 does the same: size \<open>[]\<close>, then \<open>clone(x)\<close>).
\<close>

definition dispatch :: "('a, 'e) ops \<Rightarrow> 'a val \<Rightarrow> 'e error + 'a action" where
  "dispatch ops x =
     (case x of
        Mat sz d \<Rightarrow> dispatch_size ops sz d
      | Arr xs \<Rightarrow>
          (case matrix ops x of
             Inl e \<Rightarrow> Inl (Thrown e)
           | Inr (sz, d) \<Rightarrow> dispatch_size ops sz d)
      | _ \<Rightarrow> Inr (Return (clone x)))"

definition det :: "('a, 'e) ops \<Rightarrow> 'a val \<Rightarrow> ('e error + 'a val) option" where
  "det ops x =
     (case dispatch ops x of
        Inl e \<Rightarrow> Some (Inl e)
      | Inr (Return v) \<Rightarrow> Some (Inr v)
      | Inr (Delegate m rows cols) \<Rightarrow> private_det ops m rows cols)"

subsection \<open>Vocabulary of the statements\<close>

text \<open>
  \<open>presents ops x sz d\<close>: the argument \<open>x\<close> reaches the \<open>switch\<close> as a Matrix whose
  reported size is \<open>sz\<close> and whose backing store is \<open>d\<close>: it is that Matrix, or it is a
  plain array from which \<open>matrix(x)\<close> builds it.
\<close>

definition presents :: "('a, 'e) ops \<Rightarrow> 'a val \<Rightarrow> nat list \<Rightarrow> 'a val \<Rightarrow> bool" where
  "presents ops x sz d =
     (case x of
        Mat s b \<Rightarrow> s = sz \<and> b = d
      | Arr xs \<Rightarrow> matrix ops x = Inr (sz, d)
      | _ \<Rightarrow> False)"

text \<open>A size that is a vector of length other than 1, or rows by columns with rows and columns unequal.\<close>

definition non_square :: "nat list \<Rightarrow> bool" where
  "non_square sz = (case sz of [len] \<Rightarrow> len \<noteq> 1 | [rows, cols] \<Rightarrow> rows \<noteq> cols | _ \<Rightarrow> False)"

subsection \<open>Concrete collaborators for the worked examples\<close>

text \<open>
  Modelled from the spec: the Matrix constructor is not in det.js. The spec has it turn a
  raw nested sequence into a Matrix and determine the size as the ordered list of the
  dimension lengths; \<open>array_size\<close> reads them off the first element at each depth.
\<close>

fun array_size :: "'a val \<Rightarrow> nat list" where
  "array_size (Arr []) = [0]"
| "array_size (Arr (x # xs)) = Suc (length xs) # array_size x"
| "array_size v = []"

text \<open>
  Modelled from the spec: the generic \<open>multiply\<close>, \<open>subtract\<close> and \<open>unaryMinus\<close> are not
  in det.js. These are their instances on integer scalars; on anything else they give
  \<open>undefined\<close>, which no example below reaches.
\<close>

fun int_multiply :: "int val \<Rightarrow> int val \<Rightarrow> int val" where
  "int_multiply (El a) (El b) = El (a * b)"
| "int_multiply x y = Undef"

fun int_subtract :: "int val \<Rightarrow> int val \<Rightarrow> int val" where
  "int_subtract (El a) (El b) = El (a - b)"
| "int_subtract x y = Undef"

fun int_unaryMinus :: "int val \<Rightarrow> int val" where
  "int_unaryMinus (El a) = El (- a)"
| "int_unaryMinus x = Undef"

text \<open>
  The integer collaborators around a given \<open>lup\<close>. The real \<open>format\<close> prints the size;
  the stand-in prints a fixed text, since no statement depends on the digits.
\<close>

definition int_ops :: "(int val \<Rightarrow> unit + int decomp) \<Rightarrow> (int, unit) ops" where
  "int_ops l =
     \<lparr> subtract = int_subtract, multiply = int_multiply, unaryMinus = int_unaryMinus,
       lup = l, matrix = (\<lambda>x. Inr (array_size x, x)),
       format = (\<lambda>sz. ''[..]'') \<rparr>"

text \<open>A \<open>lup\<close> that always throws: an example that returns a value with it never called \<open>lup\<close>.\<close>

definition lup_throws :: "int val \<Rightarrow> unit + int decomp" where
  "lup_throws m = Inl ()"

text \<open>An argument of rank 0: not an array, and not a Matrix unless its reported size is empty.\<close>

definition scalar_input :: "'a val \<Rightarrow> bool" where
  "scalar_input x = (case x of Arr xs \<Rightarrow> False | Mat sz d \<Rightarrow> sz = [] | _ \<Rightarrow> True)"

text \<open>
  A \<open>lup\<close> stand-in for the empty store: no rows in \<open>L\<close> and \<open>U\<close>, the empty
  permutation.
\<close>

definition lup_empty :: "int val \<Rightarrow> unit + int decomp" where
  "lup_empty m = Inr \<lparr> decomp_L = Arr [], decomp_U = Arr [], decomp_p = [] \<rparr>"

subsection \<open>Permutations and their cycles\<close>

text \<open>
  The spec's words for the array \<open>p\<close>: a valid permutation of \<open>[0, n)\<close>, no index missing
  and none repeated.
\<close>

definition valid_permutation :: "nat list \<Rightarrow> nat \<Rightarrow> bool" where
  "valid_permutation p n = (length p = n \<and> distinct p \<and> (\<forall>k \<in> set p. k < n))"

text \<open>The map \<open>j \<mapsto> p[j]\<close> on the indices of \<open>p\<close>, the identity elsewhere.\<close>

definition perm_fun :: "nat list \<Rightarrow> nat \<Rightarrow> nat" where
  "perm_fun p x = (if x < length p then p ! x else x)"

text \<open>
  The cycle of \<open>x\<close> is the set of the indices reached from \<open>x\<close> by following \<open>p\<close>; the
  cycle decomposition is the set of the cycles of the indices below \<open>n\<close>. \<open>cycle_count\<close>
  is the spec's \<open>c\<close>, and \<open>even_cycle_count\<close> the number of cycles of even length.
\<close>

definition orbit :: "nat list \<Rightarrow> nat \<Rightarrow> nat set" where
  "orbit p x = {y. \<exists>k. y = (perm_fun p ^^ k) x}"

definition cycles :: "nat list \<Rightarrow> nat \<Rightarrow> nat set set" where
  "cycles p n = orbit p ` {..<n}"

definition cycle_count :: "nat list \<Rightarrow> nat \<Rightarrow> nat" where
  "cycle_count p n = card (cycles p n)"

definition even_cycle_count :: "nat list \<Rightarrow> nat \<Rightarrow> nat" where
  "even_cycle_count p n = card {c \<in> cycles p n. even (card c)}"

subsection \<open>The decomposition as the spec describes it\<close>

text \<open>
  The spec's \<open>U\<close> is an \<open>n\<close> by \<open>n\<close> array: \<open>n\<close> rows, each an array of \<open>n\<close> entries.
  \<open>entry a i j\<close> is the entry in row \<open>i\<close> and column \<open>j\<close> of such an array.
\<close>

definition square_array :: "nat \<Rightarrow> 'a val \<Rightarrow> bool" where
  "square_array n a =
     (case a of
        Arr rs \<Rightarrow> length rs = n \<and> list_all (\<lambda>r. case r of Arr cs \<Rightarrow> length cs = n | _ \<Rightarrow> False) rs
      | _ \<Rightarrow> False)"

definition entry :: "'a val \<Rightarrow> nat \<Rightarrow> nat \<Rightarrow> 'a val" where
  "entry a i j = (case a of Arr rs \<Rightarrow> (case rs ! i of Arr cs \<Rightarrow> cs ! j | _ \<Rightarrow> Undef) | _ \<Rightarrow> Undef)"

text \<open>
  A \<open>lup\<close> stand-in that answers with the decomposition of the matrix
  \<open>[[0, 3, 1], [2, 0, 0], [0, 0, 5]]\<close>: its first two rows swapped give \<open>U\<close>, and \<open>L\<close> is
  the identity.
\<close>

definition lup_example :: "int val \<Rightarrow> unit + int decomp" where
  "lup_example m =
     Inr \<lparr> decomp_L = Arr [Arr [El 1, El 0, El 0], Arr [El 0, El 1, El 0], Arr [El 0, El 0, El 1]],
           decomp_U = Arr [Arr [El 2, El 0, El 0], Arr [El 0, El 3, El 1], Arr [El 0, El 0, El 5]],
           decomp_p = [1, 0, 2] \<rparr>"

subsection \<open>Vocabulary of the proofs about the scan\<close>

text \<open>\<open>m\<close> is the length of the cycle of \<open>x\<close>: the least positive number of steps that return to \<open>x\<close>.\<close>

definition is_period :: "nat list \<Rightarrow> nat \<Rightarrow> nat \<Rightarrow> bool" where
  "is_period p x m = (0 < m \<and> (perm_fun p ^^ m) x = x \<and> (\<forall>k. 0 < k \<and> k < m \<longrightarrow> (perm_fun p ^^ k) x \<noteq> x))"

text \<open>
  \<open>marks p x k\<close>: the keys the inner loop has assigned after \<open>k\<close> iterations from \<open>x\<close>,
  the latest first. \<open>closed_marks\<close>: an index is marked iff its image under \<open>p\<close> is.
  \<open>scan_inv\<close>: the invariant of the outer loop at its head. \<open>unvisited_even\<close>: the number
  of even-length cycles not yet fully marked.
\<close>

definition marks :: "nat list \<Rightarrow> nat \<Rightarrow> nat \<Rightarrow> nat option list" where
  "marks p x k = map (\<lambda>t. Some ((perm_fun p ^^ t) x)) (rev [1..<Suc k])"

definition closed_marks :: "nat list \<Rightarrow> nat \<Rightarrow> nat option list \<Rightarrow> bool" where
  "closed_marks p n vis = (\<forall>x<n. Some (perm_fun p x) \<in> set vis \<longleftrightarrow> Some x \<in> set vis)"

definition scan_inv :: "nat list \<Rightarrow> nat \<Rightarrow> nat \<Rightarrow> nat option list \<Rightarrow> bool" where
  "scan_inv p n i vis =
     (i \<le> n \<and> distinct vis \<and> set vis \<subseteq> Some ` {..<n} \<and> (\<forall>x<i. Some x \<in> set vis) \<and>
      closed_marks p n vis)"

definition unvisited_even :: "nat list \<Rightarrow> nat \<Rightarrow> nat option list \<Rightarrow> nat" where
  "unvisited_even p n vis = card {c \<in> cycles p n. even (card c) \<and> \<not> Some ` c \<subseteq> set vis}"

subsection \<open>The same code over a store of mutable arrays\<close>

text \<open>
  JavaScript arrays are mutable objects, and \<open>det\<close> hands one to \<open>lup\<close>. To speak about
  what a call leaves of the caller's objects, the arrays live in a store: address \<open>a\<close> holds
  the contents of one array object (nested rows by value). A scalar is a value; an array
  argument is the address of its array; a Matrix object is its size and the address of its
  backing store.
\<close>

type_synonym 'a store = "'a val list"

datatype 'a jsref = Scalar "'a val" | ArrayRef nat | MatrixObj "nat list" nat

text \<open>Reading an address, and allocating a new array object at the next free address.\<close>

definition deref :: "'a store \<Rightarrow> nat \<Rightarrow> 'a val" where
  "deref h a = (if a < length h then h ! a else Undef)"

definition alloc :: "'a store \<Rightarrow> 'a val \<Rightarrow> nat \<times> 'a store" where
  "alloc h v = (length h, h @ [v])"

text \<open>
  Modelled from the spec: the method \<open>x.clone()\<close> is not in det.js. The spec has it provide
  a deep clone: a new array object with equal contents, sharing nothing with the original.
\<close>

definition clone_array :: "'a store \<Rightarrow> nat \<Rightarrow> nat \<times> 'a store" where
  "clone_array h a = alloc h (deref h a)"

text \<open>
  \<open>_det\<close> on the array at address \<open>a\<close>. The only call in \<open>_det\<close> that receives the array is
  \<open>lup(matrix)\<close>, in the general branch (line 108); \<open>lup_st\<close> is \<open>lup\<close> with its effect on
  the store. The value computed is that of \<open>private_det\<close> on the contents, with the answer
  of that call for \<open>lup\<close>; the branches for 1 and 2 rows only read.
\<close>

definition private_det_store ::
  "('a, 'e) ops \<Rightarrow> ('a store \<Rightarrow> nat \<Rightarrow> ('e + 'a decomp) \<times> 'a store) \<Rightarrow>
     'a store \<Rightarrow> nat \<Rightarrow> nat \<Rightarrow> nat \<Rightarrow> ('e error + 'a val) option \<times> 'a store" where
  "private_det_store ops lup_st h a rows cols =
     (if rows = 1 \<or> rows = 2 then (private_det ops (deref h a) rows cols, h)
      else (case lup_st h a of
              (answer, h') \<Rightarrow> (private_det (ops\<lparr>lup := \<lambda>m. answer\<rparr>) (deref h a) rows cols, h')))"

text \<open>A determinant returned by \<open>_det\<close> is a scalar.\<close>

definition result_ref :: "('e error + 'a val) option \<Rightarrow> ('e error + 'a jsref) option" where
  "result_ref r = map_option (map_sum id Scalar) r"

text \<open>
  The \<open>switch\<close> of lines 54 to 83 on the Matrix of size \<open>sz\<close> with backing store at \<open>a\<close>.
  Line 57 clones the Matrix, line 62 clones the element read, line 73 clones the Matrix and
  passes the clone's backing store to \<open>_det\<close>.
\<close>

definition switch_store ::
  "('a, 'e) ops \<Rightarrow> ('a store \<Rightarrow> nat \<Rightarrow> ('e + 'a decomp) \<times> 'a store) \<Rightarrow>
     'a store \<Rightarrow> nat list \<Rightarrow> nat \<Rightarrow> ('e error + 'a jsref) option \<times> 'a store" where
  "switch_store ops lup_st h sz a =
     (case sz of
        [] \<Rightarrow> (case clone_array h a of (a', h') \<Rightarrow> (Some (Inr (MatrixObj sz a')), h'))
      | [len] \<Rightarrow>
          if len = 1
          then (case js_get (deref h a) 0 of
                  Inl e \<Rightarrow> (Some (Inl e), h)
                | Inr v \<Rightarrow> (Some (Inr (Scalar (clone v))), h))
          else (Some (Inl (RangeError (''Matrix must be square '' @ ''(size: '' @ format ops sz @ '')''))), h)
      | [rows, cols] \<Rightarrow>
          if rows = cols
          then (case clone_array h a of
                  (a', h') \<Rightarrow>
                    (case private_det_store ops lup_st h' a' rows cols of
                       (r, h'') \<Rightarrow> (result_ref r, h'')))
          else (Some (Inl (RangeError (''Matrix must be square '' @ ''(size: '' @ format ops sz @ '')''))), h)
      | _ \<Rightarrow>
          (Some (Inl (RangeError (''Matrix must be two dimensional '' @ ''(size: '' @ format ops sz @ '')''))), h))"

text \<open>
  Lines 37 to 52: \<open>matrix_st\<close> is \<open>matrix(x)\<close> with its effect on the store; it answers with
  the size and the address of the backing store of the Matrix it builds.
\<close>

definition det_store ::
  "('a, 'e) ops \<Rightarrow> ('a store \<Rightarrow> nat \<Rightarrow> ('e + 'a decomp) \<times> 'a store) \<Rightarrow>
     ('a store \<Rightarrow> nat \<Rightarrow> ('e + nat list \<times> nat) \<times> 'a store) \<Rightarrow>
     'a store \<Rightarrow> 'a jsref \<Rightarrow> ('e error + 'a jsref) option \<times> 'a store" where
  "det_store ops lup_st matrix_st h x =
     (case x of
        Scalar v \<Rightarrow> (Some (Inr (Scalar (clone v))), h)
      | MatrixObj sz a \<Rightarrow> switch_store ops lup_st h sz a
      | ArrayRef a \<Rightarrow>
          (case matrix_st h a of
             (Inl e, h1) \<Rightarrow> (Some (Inl (Thrown e)), h1)
           | (Inr (sz, a1), h1) \<Rightarrow> switch_store ops lup_st h1 sz a1))"

text \<open>
  \<open>preserves h h'\<close>: every array object of \<open>h\<close> is still there in \<open>h'\<close>, with the same contents.
  \<open>lup_frame\<close>: \<open>lup\<close> writes to no array object but the one it is given (it may allocate).
  \<open>after_matrix\<close>: the store as it is when the \<open>switch\<close> of line 54 is reached, that is
  after the call \<open>matrix(x)\<close> of line 47 when the argument is a plain array, and the store
  of the call otherwise.
\<close>

definition preserves :: "'a store \<Rightarrow> 'a store \<Rightarrow> bool" where
  "preserves h h' = (length h \<le> length h' \<and> (\<forall>b<length h. h' ! b = h ! b))"

definition lup_frame :: "('a store \<Rightarrow> nat \<Rightarrow> ('e + 'a decomp) \<times> 'a store) \<Rightarrow> bool" where
  "lup_frame lup_st =
     (\<forall>h a. length h \<le> length (snd (lup_st h a)) \<and>
        (\<forall>b<length h. b \<noteq> a \<longrightarrow> snd (lup_st h a) ! b = h ! b))"

definition after_matrix ::
  "('a store \<Rightarrow> nat \<Rightarrow> ('e + nat list \<times> nat) \<times> 'a store) \<Rightarrow> 'a store \<Rightarrow> 'a jsref \<Rightarrow> 'a store" where
  "after_matrix matrix_st h x = (case x of ArrayRef a \<Rightarrow> snd (matrix_st h a) | _ \<Rightarrow> h)"

text \<open>
  Stand-ins for the worked examples: a \<open>lup\<close> that overwrites the array it is given and
  throws, and a Matrix constructor that wraps the array it is given without copying it.
\<close>

definition lup_scribbles :: "int store \<Rightarrow> nat \<Rightarrow> (unit + int decomp) \<times> int store" where
  "lup_scribbles h a = (Inl (), h[a := Undef])"

definition matrix_wraps :: "int store \<Rightarrow> nat \<Rightarrow> (unit + nat list \<times> nat) \<times> int store" where
  "matrix_wraps h a = (Inr (array_size (deref h a), a), h)"

text \<open>
  A Matrix constructor that normalises the array it is given in place: a Matrix found
  among the elements is replaced by its backing store, and the array, so rewritten, becomes
  the backing store of the new Matrix. The spec's contract for the constructor (convert a
  raw nested sequence, determine its size) allows it.
\<close>

fun unwrap :: "'a val \<Rightarrow> 'a val" where
  "unwrap (Arr xs) = Arr (map unwrap xs)"
| "unwrap (Mat sz d) = unwrap d"
| "unwrap Undef = Undef"
| "unwrap (El v) = El v"

definition matrix_unwraps :: "int store \<Rightarrow> nat \<Rightarrow> (unit + nat list \<times> nat) \<times> int store" where
  "matrix_unwraps h a = (Inr (array_size (unwrap (deref h a)), a), h[a := unwrap (deref h a)])"

section \<open>Properties\<close>

subsection \<open>Where an error comes from\<close>

lemma js_get_Inl: "js_get a i = Inl e \<Longrightarrow> e = TypeError"
  by (cases a) simp_all

lemma js_get2_Inl:
  fixes a :: "'a val" and e :: "'e error"
  shows "js_get2 a i j = Inl e \<Longrightarrow> e = TypeError"
  unfolding js_get2_def by (cases "js_get a i :: 'e error + 'a val") (auto dest: js_get_Inl)

lemma diag_product_Inl:
  fixes ops :: "('a, 'e) ops"
  shows "diag_product ops u rows i d = Inl e \<Longrightarrow> e = TypeError"
proof (induction ops u rows i d rule: diag_product.induct)
  case (1 ops u rows i det)
  show ?case
  proof (cases "i < rows")
    case False
    with "1.prems" show ?thesis by (subst (asm) diag_product.simps) simp
  next
    case True
    show ?thesis
    proof (cases "js_get2 u i i :: 'e error + 'a val")
      case (Inl e')
      with True "1.prems" have "e = e'" by (subst (asm) diag_product.simps) simp
      with Inl show ?thesis by (auto dest: js_get2_Inl)
    next
      case (Inr v)
      with True "1.prems" have "diag_product ops u rows (i + 1) (multiply ops det v) = Inl e"
        by (subst (asm) diag_product.simps) simp
      with "1.IH" [OF True Inr] show ?thesis .
    qed
  qed
qed

lemma private_det_Inl:
  fixes ops :: "('a, 'e) ops"
  assumes "private_det ops m rows cols = Some (Inl e)"
  shows "e = TypeError \<or> (\<exists>t. e = Thrown t)"
proof -
  consider "rows = 1" | "rows = 2" | "rows \<noteq> 1 \<and> rows \<noteq> 2" by blast
  then show ?thesis
  proof cases
    case 1
    with assms show ?thesis
      by (auto simp: private_det_def split: sum.splits dest: js_get2_Inl)
  next
    case 2
    with assms show ?thesis
      by (auto simp: private_det_def split: sum.splits dest: js_get2_Inl)
  next
    case 3
    with assms show ?thesis
      by (auto simp: private_det_def split: sum.splits option.splits dest: js_get2_Inl diag_product_Inl)
  qed
qed

subsection \<open>The dispatch\<close>

lemma dispatch_presents: "presents ops x sz d \<Longrightarrow> dispatch ops x = dispatch_size ops sz d"
  by (cases x) (simp_all add: presents_def dispatch_def)

lemma presents_cases:
  "dispatch ops x = Inl (RangeError msg) \<Longrightarrow> \<exists>sz d. presents ops x sz d"
  by (cases x) (auto simp: presents_def dispatch_def clone_def split: sum.splits)

lemma det_RangeError_dispatch:
  "det ops x = Some (Inl (RangeError msg)) \<longleftrightarrow> dispatch ops x = Inl (RangeError msg)"
  unfolding det_def
  by (auto split: sum.splits action.splits dest: private_det_Inl)

lemma dispatch_size_non_square:
  "non_square sz \<Longrightarrow> dispatch_size ops sz d =
     Inl (RangeError (''Matrix must be square '' @ ''(size: '' @ format ops sz @ '')''))"
  by (auto simp: non_square_def dispatch_size_def split: list.splits)

lemma dispatch_size_rank3:
  "3 \<le> length sz \<Longrightarrow> dispatch_size ops sz d =
     Inl (RangeError (''Matrix must be two dimensional '' @ ''(size: '' @ format ops sz @ '')''))"
  by (auto simp: dispatch_size_def split: list.splits)

lemma dispatch_size_RangeError:
  "dispatch_size ops sz d = Inl (RangeError msg) \<Longrightarrow>
     (non_square sz \<and> msg = ''Matrix must be square '' @ ''(size: '' @ format ops sz @ '')'') \<or>
     (3 \<le> length sz \<and> msg = ''Matrix must be two dimensional '' @ ''(size: '' @ format ops sz @ '')'')"
  by (auto simp: non_square_def dispatch_size_def split: list.splits if_splits sum.splits dest: js_get_Inl)

lemma non_square_rank: "non_square sz \<Longrightarrow> length sz < 3"
  by (auto simp: non_square_def split: list.splits)

text \<open>
  Claim C4. \<open>det\<close> throws the error whose message says that the matrix must be square
  exactly when the argument presents a size that is a vector of length other than 1 or
  rows by columns with rows and columns unequal; the message carries the formatted size.
  (The spec's ShapeError is the RangeError with this message.)
\<close>

theorem det_square_error_iff:
  "((\<exists>sz d. presents ops x sz d \<and> non_square sz) \<longleftrightarrow>
      (\<exists>msg. det ops x = Some (Inl (RangeError (''Matrix must be square '' @ msg))))) \<and>
   (\<forall>sz d. presents ops x sz d \<and> non_square sz \<longrightarrow>
      det ops x = Some (Inl (RangeError (''Matrix must be square '' @ ''(size: '' @ format ops sz @ '')''))))"
proof -
  have fwd: "det ops x = Some (Inl (RangeError (''Matrix must be square '' @ ''(size: '' @ format ops sz @ '')'')))"
    if "presents ops x sz d" "non_square sz" for sz d
    using that by (simp only: det_RangeError_dispatch dispatch_presents dispatch_size_non_square)
  have bwd: "\<exists>sz d. presents ops x sz d \<and> non_square sz"
    if "det ops x = Some (Inl (RangeError (''Matrix must be square '' @ msg)))" for msg
  proof -
    from that have d: "dispatch ops x = Inl (RangeError (''Matrix must be square '' @ msg))"
      by (simp only: det_RangeError_dispatch)
    then obtain sz d where p: "presents ops x sz d" using presents_cases by blast
    with d have "dispatch_size ops sz d = Inl (RangeError (''Matrix must be square '' @ msg))"
      by (simp only: dispatch_presents)
    from dispatch_size_RangeError [OF this] have "non_square sz" by auto
    with p show ?thesis by blast
  qed
  show ?thesis using fwd bwd by blast
qed

theorem det_square_error_iff_witness:
  "presents (int_ops lup_throws) (Arr [Arr [El 1, El 2, El 3], Arr [El 4, El 5, El 6]]) [2, 3]
      (Arr [Arr [El 1, El 2, El 3], Arr [El 4, El 5, El 6]]) \<and>
   non_square [2, 3] \<and>
   det (int_ops lup_throws) (Arr [Arr [El 1, El 2, El 3], Arr [El 4, El 5, El 6]]) =
     Some (Inl (RangeError ''Matrix must be square (size: [..])''))"
proof -
  have p: "presents (int_ops lup_throws) (Arr [Arr [El 1, El 2, El 3], Arr [El 4, El 5, El 6]]) [2, 3]
      (Arr [Arr [El 1, El 2, El 3], Arr [El 4, El 5, El 6]])"
    by (simp add: presents_def int_ops_def)
  have n: "non_square [2, 3]" by (simp add: non_square_def)
  from det_square_error_iff [of "int_ops lup_throws" "Arr [Arr [El 1, El 2, El 3], Arr [El 4, El 5, El 6]]"] p n
  have "det (int_ops lup_throws) (Arr [Arr [El 1, El 2, El 3], Arr [El 4, El 5, El 6]]) =
     Some (Inl (RangeError (''Matrix must be square '' @ ''(size: '' @ format (int_ops lup_throws) [2, 3] @ '')'')))"
    by blast
  then show ?thesis using p n by (simp add: int_ops_def)
qed

lemma presents_collab_update:
  "presents (ops\<lparr>subtract := s, multiply := mu, unaryMinus := u, lup := l\<rparr>) x sz d = presents ops x sz d"
  by (cases x) (simp_all add: presents_def)

lemma presents_lup_update: "presents (ops\<lparr>lup := l\<rparr>) x sz d = presents ops x sz d"
  by (cases x) (simp_all add: presents_def)

text \<open>
  Claim C5. When the reported size has rank 3 or more, \<open>det\<close> throws the error whose message
  says that the matrix must be two dimensional and carries the formatted size. The dispatch
  alone decides it: the result is the same whatever \<open>subtract\<close>, \<open>multiply\<close>,
  \<open>unaryMinus\<close> and \<open>lup\<close> are, so none of them is consulted.
  (The spec's DimensionError is the RangeError with this message.)
\<close>

theorem det_rank3_error:
  assumes "presents ops x sz d" and "3 \<le> length sz"
  shows "dispatch ops x =
           Inl (RangeError (''Matrix must be two dimensional '' @ ''(size: '' @ format ops sz @ '')'')) \<and>
         det (ops\<lparr>subtract := s, multiply := mu, unaryMinus := u, lup := l\<rparr>) x =
           Some (Inl (RangeError (''Matrix must be two dimensional '' @ ''(size: '' @ format ops sz @ '')''))) \<and>
         det ops x =
           Some (Inl (RangeError (''Matrix must be two dimensional '' @ ''(size: '' @ format ops sz @ '')'')))"
proof -
  have a: "dispatch ops x =
      Inl (RangeError (''Matrix must be two dimensional '' @ ''(size: '' @ format ops sz @ '')''))"
    using assms by (simp only: dispatch_presents dispatch_size_rank3)
  have p': "presents (ops\<lparr>subtract := s, multiply := mu, unaryMinus := u, lup := l\<rparr>) x sz d"
    using assms(1) by (simp only: presents_collab_update)
  have b: "dispatch (ops\<lparr>subtract := s, multiply := mu, unaryMinus := u, lup := l\<rparr>) x =
      Inl (RangeError (''Matrix must be two dimensional '' @ ''(size: '' @ format ops sz @ '')''))"
    using dispatch_size_rank3 [OF assms(2), of "ops\<lparr>subtract := s, multiply := mu, unaryMinus := u, lup := l\<rparr>" d]
      dispatch_presents [OF p'] by simp
  show ?thesis using a b by (simp add: det_def)
qed

theorem det_rank3_error_witness:
  "presents (int_ops lup_throws) (Arr [Arr [Arr [El 1, El 2], Arr [El 3, El 4]], Arr [Arr [El 5, El 6], Arr [El 7, El 8]]])
     [2, 2, 2] (Arr [Arr [Arr [El 1, El 2], Arr [El 3, El 4]], Arr [Arr [El 5, El 6], Arr [El 7, El 8]]]) \<and>
   3 \<le> length [2, 2, 2 :: nat] \<and>
   det (int_ops lup_throws) (Arr [Arr [Arr [El 1, El 2], Arr [El 3, El 4]], Arr [Arr [El 5, El 6], Arr [El 7, El 8]]]) =
     Some (Inl (RangeError ''Matrix must be two dimensional (size: [..])''))"
proof -
  have p: "presents (int_ops lup_throws) (Arr [Arr [Arr [El 1, El 2], Arr [El 3, El 4]], Arr [Arr [El 5, El 6], Arr [El 7, El 8]]])
     [2, 2, 2] (Arr [Arr [Arr [El 1, El 2], Arr [El 3, El 4]], Arr [Arr [El 5, El 6], Arr [El 7, El 8]]])"
    by (simp add: presents_def int_ops_def)
  have n: "3 \<le> length [2, 2, 2 :: nat]" by simp
  show ?thesis using det_rank3_error [OF p n] p n by (simp add: int_ops_def)
qed

text \<open>
  Claim C6. On an argument of rank 0, \<open>det\<close> returns \<open>clone(x)\<close>, a copy equal to the
  argument; on a vector with one element and on a 1 by 1 matrix it returns a clone of the
  sole element. No
  collaborator's arithmetic enters the result. The instance that follows has
  \<open>det([7]) = 7\<close> and \<open>det([[5]]) = 5\<close>.
\<close>

theorem det_scalar_and_singleton:
  "(scalar_input x \<longrightarrow> det ops x = Some (Inr (clone x)) \<and> clone x = x) \<and>
   (presents ops x [1] (Arr [e]) \<longrightarrow> det ops x = Some (Inr (clone e)) \<and> clone e = e) \<and>
   (presents ops x [1, 1] (Arr [Arr [e]]) \<longrightarrow> det ops x = Some (Inr (clone e)) \<and> clone e = e)"
proof (intro conjI impI)
  assume "scalar_input x"
  then show "det ops x = Some (Inr (clone x))"
    by (cases x) (simp_all add: scalar_input_def det_def dispatch_def dispatch_size_def)
next
  assume "presents ops x [1] (Arr [e])"
  then have "dispatch ops x = dispatch_size ops [1] (Arr [e])" by (rule dispatch_presents)
  then show "det ops x = Some (Inr (clone e))"
    by (simp add: det_def dispatch_size_def)
next
  assume "presents ops x [1, 1] (Arr [Arr [e]])"
  then have "dispatch ops x = dispatch_size ops [1, 1] (Arr [Arr [e]])" by (rule dispatch_presents)
  then show "det ops x = Some (Inr (clone e))"
    by (simp add: det_def dispatch_size_def private_det_def js_get2_def clone_def)
qed (simp_all add: clone_def)

theorem det_scalar_and_singleton_witness:
  "scalar_input (El (3::int)) \<and> det (int_ops lup_throws) (El 3) = Some (Inr (El 3)) \<and>
   presents (int_ops lup_throws) (Arr [El 7]) [1] (Arr [El 7]) \<and>
   det (int_ops lup_throws) (Arr [El 7]) = Some (Inr (El 7)) \<and>
   presents (int_ops lup_throws) (Arr [Arr [El 5]]) [1, 1] (Arr [Arr [El 5]]) \<and>
   det (int_ops lup_throws) (Arr [Arr [El 5]]) = Some (Inr (El 5))"
proof -
  have a: "scalar_input (El (3::int))" by (simp add: scalar_input_def)
  have b: "presents (int_ops lup_throws) (Arr [El 7]) [1] (Arr [El 7])"
    by (simp add: presents_def int_ops_def)
  have c: "presents (int_ops lup_throws) (Arr [Arr [El 5]]) [1, 1] (Arr [Arr [El 5]])"
    by (simp add: presents_def int_ops_def)
  show ?thesis
    using a b c det_scalar_and_singleton [of "El 3" "int_ops lup_throws" "El 3"]
      det_scalar_and_singleton [of "Arr [El 7]" "int_ops lup_throws" "El 7"]
      det_scalar_and_singleton [of "Arr [Arr [El 5]]" "int_ops lup_throws" "El 5"]
    by simp
qed

text \<open>
  Claim C3. On a 2 by 2 matrix \<open>det\<close> returns
  \<open>subtract(multiply(a00, a11), multiply(a10, a01))\<close>, and it does so whatever \<open>lup\<close>
  is: the decomposition is not consulted. The instance that follows has
  \<open>det([[1, 2], [3, 4]]) = -2\<close> with a \<open>lup\<close> that always throws.
\<close>

theorem det_2x2_closed_form:
  assumes "presents ops x [2, 2] (Arr [Arr [a00, a01], Arr [a10, a11]])"
  shows "det ops x = Some (Inr (subtract ops (multiply ops a00 a11) (multiply ops a10 a01))) \<and>
         det (ops\<lparr>lup := l\<rparr>) x = Some (Inr (subtract ops (multiply ops a00 a11) (multiply ops a10 a01)))"
proof -
  have a: "dispatch ops x = dispatch_size ops [2, 2] (Arr [Arr [a00, a01], Arr [a10, a11]])"
    using assms by (rule dispatch_presents)
  have "presents (ops\<lparr>lup := l\<rparr>) x [2, 2] (Arr [Arr [a00, a01], Arr [a10, a11]])"
    using assms by (simp only: presents_lup_update)
  then have b: "dispatch (ops\<lparr>lup := l\<rparr>) x = dispatch_size (ops\<lparr>lup := l\<rparr>) [2, 2] (Arr [Arr [a00, a01], Arr [a10, a11]])"
    by (rule dispatch_presents)
  show ?thesis
    using a b by (simp add: det_def dispatch_size_def private_det_def js_get2_def clone_def)
qed

theorem det_2x2_closed_form_witness:
  "presents (int_ops lup_throws) (Arr [Arr [El 1, El 2], Arr [El 3, El 4]]) [2, 2]
     (Arr [Arr [El 1, El 2], Arr [El 3, El 4]]) \<and>
   det (int_ops lup_throws) (Arr [Arr [El 1, El 2], Arr [El 3, El 4]]) = Some (Inr (El (- 2)))"
proof -
  have p: "presents (int_ops lup_throws) (Arr [Arr [El 1, El 2], Arr [El 3, El 4]]) [2, 2]
     (Arr [Arr [El 1, El 2], Arr [El 3, El 4]])"
    by (simp add: presents_def int_ops_def)
  show ?thesis using det_2x2_closed_form [OF p] p by (simp add: int_ops_def)
qed

lemma dispatch_delegate_square:
  assumes "dispatch ops x = Inr (Delegate m rows cols)"
  shows "rows = cols \<and> presents ops x [rows, cols] m"
proof -
  have ds: "rows = cols \<and> sz = [rows, cols] \<and> d = m"
    if "dispatch_size ops sz d = Inr (Delegate m rows cols)" for sz d
    using that
    by (auto simp: dispatch_size_def clone_def split: list.splits if_splits sum.splits)
  show ?thesis
  proof (cases x)
    case (Mat sz d)
    with assms have "dispatch_size ops sz d = Inr (Delegate m rows cols)"
      by (simp add: dispatch_def)
    from ds [OF this] Mat show ?thesis by (simp add: presents_def)
  next
    case (Arr xs)
    with assms obtain sz d where m: "matrix ops x = Inr (sz, d)"
      and "dispatch_size ops sz d = Inr (Delegate m rows cols)"
      by (auto simp: dispatch_def split: sum.splits)
    from ds [OF this(2)] m Arr show ?thesis by (simp add: presents_def)
  qed (use assms in \<open>simp_all add: dispatch_def\<close>)
qed

text \<open>
  Claim C7 says that the evaluator \<open>_det\<close> is only ever called with
  \<open>rows = cols \<ge> 1\<close>. The guard of line 72 is \<open>rows === cols\<close> alone
  (\<open>dispatch_delegate_square\<close>), so the Matrix of size \<open>[0, 0]\<close> reaches the evaluator
  with \<open>rows = cols = 0\<close>. There it takes the general branch, which asks \<open>lup\<close> for a
  decomposition of the empty store and reads \<open>decomp.U[0][0]\<close>: with no row in \<open>U\<close>
  the read throws a TypeError.
\<close>

theorem dispatch_delegates_empty_matrix:
  "dispatch ops (Mat [0, 0] (Arr [])) = Inr (Delegate (Arr []) 0 0) \<and>
   det ops (Mat [0, 0] (Arr [])) = private_det ops (Arr []) 0 0 \<and>
   det (int_ops lup_empty) (Mat [0, 0] (Arr [])) = Some (Inl TypeError)"
  by (simp add: det_def dispatch_def dispatch_size_def clone_def private_det_def int_ops_def
      lup_empty_def js_get2_def)

text \<open>
  Claim C10. The three failures (a vector of length other than 1, a non-square matrix, a
  rank of 3 or more) all throw the one error type RangeError. The first two carry the same
  message, "Matrix must be square"; the third carries "Matrix must be two dimensional";
  only the message tells them apart.
\<close>

theorem det_failures_are_RangeError:
  assumes "presents ops x sz d" and "non_square sz \<or> 3 \<le> length sz"
  shows "\<exists>msg. det ops x = Some (Inl (RangeError msg)) \<and>
           (msg = ''Matrix must be square '' @ ''(size: '' @ format ops sz @ '')'' \<longleftrightarrow> non_square sz) \<and>
           (msg = ''Matrix must be two dimensional '' @ ''(size: '' @ format ops sz @ '')'' \<longleftrightarrow> 3 \<le> length sz)"
proof -
  from assms(2) show ?thesis
  proof
    assume n: "non_square sz"
    then have "\<not> 3 \<le> length sz" using non_square_rank [OF n] by simp
    moreover have "det ops x = Some (Inl (RangeError (''Matrix must be square '' @ ''(size: '' @ format ops sz @ '')'')))"
      using assms(1) n by (simp only: det_RangeError_dispatch dispatch_presents dispatch_size_non_square)
    ultimately show ?thesis using n by simp
  next
    assume r: "3 \<le> length sz"
    then have "\<not> non_square sz" using non_square_rank [of sz] by auto
    moreover have "det ops x = Some (Inl (RangeError (''Matrix must be two dimensional '' @ ''(size: '' @ format ops sz @ '')'')))"
      using assms(1) r by (simp only: det_RangeError_dispatch dispatch_presents dispatch_size_rank3)
    ultimately show ?thesis using r by simp
  qed
qed

theorem det_failures_are_RangeError_witness:
  "presents (int_ops lup_throws) (Arr [El 1, El 2]) [2] (Arr [El 1, El 2]) \<and> non_square [2] \<and>
   det (int_ops lup_throws) (Arr [El 1, El 2]) = Some (Inl (RangeError ''Matrix must be square (size: [..])'')) \<and>
   presents (int_ops lup_throws) (Mat [2, 3] (Arr [])) [2, 3] (Arr []) \<and> non_square [2, 3] \<and>
   det (int_ops lup_throws) (Mat [2, 3] (Arr [])) = Some (Inl (RangeError ''Matrix must be square (size: [..])'')) \<and>
   presents (int_ops lup_throws) (Mat [2, 2, 2] (Arr [])) [2, 2, 2] (Arr []) \<and> 3 \<le> length [2, 2, 2 :: nat] \<and>
   det (int_ops lup_throws) (Mat [2, 2, 2] (Arr [])) = Some (Inl (RangeError ''Matrix must be two dimensional (size: [..])''))"
proof -
  have p1: "presents (int_ops lup_throws) (Arr [El 1, El 2]) [2] (Arr [El 1, El 2])"
    by (simp add: presents_def int_ops_def)
  have p2: "presents (int_ops lup_throws) (Mat [2, 3] (Arr [])) [2, 3] (Arr [])"
    by (simp add: presents_def)
  have p3: "presents (int_ops lup_throws) (Mat [2, 2, 2] (Arr [])) [2, 2, 2] (Arr [])"
    by (simp add: presents_def)
  have n1: "non_square [2]" and n2: "non_square [2, 3]" and n3: "\<not> non_square [2, 2, 2]"
    by (simp_all add: non_square_def)
  have f: "format (int_ops lup_throws) sz = ''[..]''" for sz by (simp add: int_ops_def)
  from det_failures_are_RangeError [OF p1] n1
  have a: "det (int_ops lup_throws) (Arr [El 1, El 2]) = Some (Inl (RangeError ''Matrix must be square (size: [..])''))"
    by (auto simp: f)
  from det_failures_are_RangeError [OF p2] n2
  have b: "det (int_ops lup_throws) (Mat [2, 3] (Arr [])) = Some (Inl (RangeError ''Matrix must be square (size: [..])''))"
    by (auto simp: f)
  from det_failures_are_RangeError [OF p3] n3
  have c: "det (int_ops lup_throws) (Mat [2, 2, 2] (Arr [])) = Some (Inl (RangeError ''Matrix must be two dimensional (size: [..])''))"
    by (auto simp: f)
  show ?thesis using p1 p2 p3 n1 n2 a b c by simp
qed

subsection \<open>Permutations, cycles and parity\<close>

lemma perm_fun_less: "valid_permutation p n \<Longrightarrow> x < n \<Longrightarrow> perm_fun p x < n"
  by (simp add: valid_permutation_def perm_fun_def)

lemma perm_fun_inj: "valid_permutation p n \<Longrightarrow> inj (perm_fun p)"
proof (rule injI)
  fix x y
  assume v: "valid_permutation p n" and e: "perm_fun p x = perm_fun p y"
  have len: "length p = n" and d: "distinct p" and r: "\<And>k. k < n \<Longrightarrow> p ! k < n"
    using v by (simp_all add: valid_permutation_def)
  consider "x < n" "y < n" | "x < n" "\<not> y < n" | "\<not> x < n" "y < n" | "\<not> x < n" "\<not> y < n"
    by blast
  then show "x = y"
  proof cases
    case 1
    with e len have "p ! x = p ! y" by (simp add: perm_fun_def)
    with 1 len d show ?thesis by (simp add: nth_eq_iff_index_eq)
  next
    case 2
    with e len have "p ! x = y" by (simp add: perm_fun_def)
    with r [OF 2(1)] 2(2) show ?thesis by simp
  next
    case 3
    with e len have "x = p ! y" by (simp add: perm_fun_def)
    with r [OF 3(2)] 3(1) show ?thesis by simp
  next
    case 4
    with e len show ?thesis by (simp add: perm_fun_def)
  qed
qed

lemma perm_funpow_less: "valid_permutation p n \<Longrightarrow> x < n \<Longrightarrow> (perm_fun p ^^ k) x < n"
  by (induction k) (simp_all add: perm_fun_less)

lemma p_at_perm_fun: "valid_permutation p n \<Longrightarrow> x < n \<Longrightarrow> p_at p (Some x) = Some (perm_fun p x)"
  by (simp add: p_at_def perm_fun_def valid_permutation_def)

lemma funpow_inj_diff:
  assumes "inj f" and "(f ^^ s) x = (f ^^ t) x" and "s \<le> t"
  shows "(f ^^ (t - s)) x = x"
proof -
  have "(f ^^ s) ((f ^^ (t - s)) x) = (f ^^ (s + (t - s))) x"
    by (simp only: funpow_add o_apply)
  also have "\<dots> = (f ^^ s) x" using assms(2,3) by simp
  finally show ?thesis using inj_fn [OF assms(1), of s] by (simp add: inj_eq)
qed

lemma perm_period_ex:
  assumes "valid_permutation p n" and "x < n"
  shows "\<exists>m. 0 < m \<and> (perm_fun p ^^ m) x = x \<and> (\<forall>k. 0 < k \<and> k < m \<longrightarrow> (perm_fun p ^^ k) x \<noteq> x)"
proof -
  have "{y. \<exists>k. y = (perm_fun p ^^ k) x} \<subseteq> {..<n}"
    using perm_funpow_less [OF assms] by auto
  then have "finite {y. \<exists>k. y = (perm_fun p ^^ k) x}"
    by (rule finite_subset) simp
  with perm_fun_inj [OF assms(1)] obtain m0 where m0: "0 < m0" "(perm_fun p ^^ m0) x = x"
    by (rule funpow_inj_finite)
  define m where "m = (LEAST m. 0 < m \<and> (perm_fun p ^^ m) x = x)"
  have a: "0 < m \<and> (perm_fun p ^^ m) x = x"
    unfolding m_def by (rule LeastI [of _ m0]) (use m0 in simp)
  have b: "(perm_fun p ^^ k) x \<noteq> x" if "0 < k \<and> k < m" for k
  proof
    assume "(perm_fun p ^^ k) x = x"
    with that have "m \<le> k" unfolding m_def by (intro Least_le) simp
    with that show False by simp
  qed
  from a b show ?thesis by blast
qed


lemma orbit_period:
  assumes "is_period p x m"
  shows "orbit p x = (\<lambda>k. (perm_fun p ^^ k) x) ` {0..<m}" and "card (orbit p x) = m"
proof -
  have m: "0 < m" "(perm_fun p ^^ m) x = x" using assms by (simp_all add: is_period_def)
  have min: "\<And>k. 0 < k \<Longrightarrow> k < m \<Longrightarrow> (perm_fun p ^^ k) x \<noteq> x"
    using assms by (simp add: is_period_def)
  show o: "orbit p x = (\<lambda>k. (perm_fun p ^^ k) x) ` {0..<m}"
  proof (intro set_eqI iffI)
    fix y assume "y \<in> orbit p x"
    then obtain k where "y = (perm_fun p ^^ k) x" by (auto simp: orbit_def)
    then have "y = (perm_fun p ^^ (k mod m)) x" by (simp only: funpow_mod_eq [OF m(2)])
    moreover have "k mod m \<in> {0..<m}" using m(1) by simp
    ultimately show "y \<in> (\<lambda>k. (perm_fun p ^^ k) x) ` {0..<m}" by blast
  next
    fix y assume "y \<in> (\<lambda>k. (perm_fun p ^^ k) x) ` {0..<m}"
    then show "y \<in> orbit p x" by (auto simp: orbit_def)
  qed
  have "inj_on (\<lambda>k. (perm_fun p ^^ k) x) {0..<m}"
    using m(2) min by (rule inj_on_funpow_least)
  then show "card (orbit p x) = m" by (simp add: o card_image)
qed

lemma orbit_self: "x \<in> orbit p x"
proof -
  have "x = (perm_fun p ^^ 0) x" by simp
  then show ?thesis unfolding orbit_def by blast
qed

lemma orbit_step: "y \<in> orbit p x \<Longrightarrow> perm_fun p y \<in> orbit p x"
proof -
  assume "y \<in> orbit p x"
  then obtain k where "y = (perm_fun p ^^ k) x" by (auto simp: orbit_def)
  then have "perm_fun p y = (perm_fun p ^^ Suc k) x" by simp
  then show ?thesis unfolding orbit_def by blast
qed

lemma orbit_subset: "y \<in> orbit p x \<Longrightarrow> orbit p y \<subseteq> orbit p x"
proof
  fix z assume y: "y \<in> orbit p x" and "z \<in> orbit p y"
  then obtain k j where "y = (perm_fun p ^^ k) x" "z = (perm_fun p ^^ j) y" by (auto simp: orbit_def)
  then have "z = (perm_fun p ^^ (j + k)) x" by (simp add: funpow_add)
  then show "z \<in> orbit p x" unfolding orbit_def by blast
qed

lemma orbit_sym:
  assumes "valid_permutation p n" and "x < n" and "y \<in> orbit p x"
  shows "x \<in> orbit p y"
proof -
  from perm_period_ex [OF assms(1,2)] obtain m where m: "0 < m" "(perm_fun p ^^ m) x = x" by blast
  from assms(3) obtain k where k: "y = (perm_fun p ^^ k) x" by (auto simp: orbit_def)
  have "(perm_fun p ^^ (m - k mod m)) y = (perm_fun p ^^ (m - k mod m)) ((perm_fun p ^^ (k mod m)) x)"
    by (simp only: k funpow_mod_eq [OF m(2)])
  also have "\<dots> = (perm_fun p ^^ ((m - k mod m) + k mod m)) x" by (simp only: funpow_add o_apply)
  also have "(m - k mod m) + k mod m = m" using m(1) by (simp add: less_imp_le)
  finally have "x = (perm_fun p ^^ (m - k mod m)) y" using m(2) by simp
  then show ?thesis unfolding orbit_def by blast
qed

lemma orbit_eq:
  assumes "valid_permutation p n" and "x < n" and "y \<in> orbit p x"
  shows "orbit p y = orbit p x"
  using orbit_subset [OF assms(3)] orbit_subset [OF orbit_sym [OF assms]] by blast

lemma orbit_bounded: "valid_permutation p n \<Longrightarrow> x < n \<Longrightarrow> orbit p x \<subseteq> {..<n}"
  using perm_funpow_less by (auto simp: orbit_def)

lemma cycles_finite: "finite (cycles p n)"
  by (simp add: cycles_def)

lemma cycles_disjoint:
  assumes "valid_permutation p n"
  shows "pairwise disjnt (cycles p n)"
proof (rule pairwiseI)
  fix c d assume "c \<in> cycles p n" "d \<in> cycles p n" "c \<noteq> d"
  then obtain x y where x: "x < n" "c = orbit p x" and y: "y < n" "d = orbit p y"
    by (auto simp: cycles_def)
  show "disjnt c d"
  proof (rule ccontr)
    assume "\<not> disjnt c d"
    then obtain z where "z \<in> orbit p x" "z \<in> orbit p y" using x y by (auto simp: disjnt_def)
    then have "orbit p z = orbit p x" "orbit p z = orbit p y"
      using orbit_eq [OF assms x(1)] orbit_eq [OF assms y(1)] by blast+
    with x y \<open>c \<noteq> d\<close> show False by simp
  qed
qed

lemma cycles_union:
  assumes "valid_permutation p n"
  shows "\<Union>(cycles p n) = {..<n}"
proof
  show "\<Union>(cycles p n) \<subseteq> {..<n}"
    using orbit_bounded [OF assms] by (auto simp: cycles_def)
  show "{..<n} \<subseteq> \<Union>(cycles p n)"
    using orbit_self by (auto simp: cycles_def)
qed

lemma cycle_finite_nonempty:
  assumes "valid_permutation p n" and "c \<in> cycles p n"
  shows "finite c" and "1 \<le> card c"
proof -
  from assms(2) obtain x where x: "x < n" "c = orbit p x" by (auto simp: cycles_def)
  show f: "finite c" using orbit_bounded [OF assms(1) x(1)] x(2) by (auto intro: finite_subset)
  have "c \<noteq> {}" using orbit_self x(2) by auto
  with f show "1 \<le> card c" by (simp add: Suc_le_eq card_gt_0_iff)
qed

lemma cycles_parity:
  assumes "valid_permutation p n"
  shows "even (n - cycle_count p n) \<longleftrightarrow> even (even_cycle_count p n)"
proof -
  have "n = card (\<Union>(cycles p n))" by (simp add: cycles_union [OF assms])
  also have "\<dots> = sum card (cycles p n)"
    using cycles_disjoint [OF assms] cycle_finite_nonempty(1) [OF assms]
    by (rule card_Union_disjoint)
  finally have n: "n = sum card (cycles p n)" .
  have c: "cycle_count p n = (\<Sum>c\<in>cycles p n. 1)" by (simp add: cycle_count_def)
  have "n - cycle_count p n = (\<Sum>c\<in>cycles p n. card c - 1)"
    unfolding c by (subst n, rule sum_subtractf_nat [symmetric]) (rule cycle_finite_nonempty(2) [OF assms])
  then have "even (n - cycle_count p n) \<longleftrightarrow> even (card {c \<in> cycles p n. odd (card c - 1)})"
    by (simp only: even_sum_iff [OF cycles_finite])
  also have "{c \<in> cycles p n. odd (card c - 1)} = {c \<in> cycles p n. even (card c)}"
  proof -
    have "odd (card c - 1) \<longleftrightarrow> even (card c)" if "c \<in> cycles p n" for c
      using cycle_finite_nonempty(2) [OF assms that] by (cases "card c") simp_all
    then show ?thesis by blast
  qed
  finally show ?thesis by (simp only: even_cycle_count_def)
qed

lemma skip_visited_spec:
  "i \<le> skip_visited vis i \<and> Some (skip_visited vis i) \<notin> set vis \<and>
   (\<forall>x. i \<le> x \<and> x < skip_visited vis i \<longrightarrow> Some x \<in> set vis)"
proof (induction vis i rule: skip_visited.induct)
  case (1 vis i)
  show ?case
  proof (cases "Some i \<in> set vis")
    case False
    then have "skip_visited vis i = i" by (subst skip_visited.simps) simp
    with False show ?thesis by auto
  next
    case True
    then have e: "skip_visited vis i = skip_visited vis (i + 1)" by (subst skip_visited.simps) simp
    from "1.IH" [OF True] have ih: "i + 1 \<le> skip_visited vis (i + 1)"
      "Some (skip_visited vis (i + 1)) \<notin> set vis"
      "\<And>x. i + 1 \<le> x \<Longrightarrow> x < skip_visited vis (i + 1) \<Longrightarrow> Some x \<in> set vis"
      by blast+
    have "Some x \<in> set vis" if "i \<le> x" "x < skip_visited vis (i + 1)" for x
    proof (cases "x = i")
      case True with \<open>Some i \<in> set vis\<close> show ?thesis by simp
    next
      case False with that ih(3) [of x] show ?thesis by simp
    qed
    with ih(1,2) show ?thesis unfolding e by auto
  qed
qed

subsection \<open>The cycle scan\<close>


lemma marks_0: "marks p x 0 = []"
  by (simp add: marks_def)

lemma marks_Suc: "marks p x (Suc k) = Some ((perm_fun p ^^ Suc k) x) # marks p x k"
  by (simp add: marks_def)

lemma set_marks: "set (marks p x k) = (\<lambda>t. Some ((perm_fun p ^^ t) x)) ` {1..k}"
proof -
  have "set [1..<Suc k] = {1..k}" by auto
  then show ?thesis by (simp add: marks_def)
qed

lemma length_marks: "length (marks p x k) = k"
  by (simp add: marks_def)

lemma closed_marks_funpow:
  assumes "valid_permutation p n" and "closed_marks p n vis" and "x < n"
  shows "Some ((perm_fun p ^^ k) x) \<in> set vis \<longleftrightarrow> Some x \<in> set vis"
proof (induction k)
  case 0
  show ?case by simp
next
  case (Suc k)
  have "(perm_fun p ^^ k) x < n" using assms(1,3) by (rule perm_funpow_less)
  with assms(2) have "Some (perm_fun p ((perm_fun p ^^ k) x)) \<in> set vis \<longleftrightarrow> Some ((perm_fun p ^^ k) x) \<in> set vis"
    by (simp add: closed_marks_def)
  with Suc show ?case by simp
qed

lemma period_no_early_return:
  assumes "valid_permutation p n" and "is_period p x m" and "1 \<le> t" and "t \<le> k" and "k < m"
  shows "(perm_fun p ^^ Suc k) x \<noteq> (perm_fun p ^^ t) x"
proof
  assume "(perm_fun p ^^ Suc k) x = (perm_fun p ^^ t) x"
  then have "(perm_fun p ^^ t) x = (perm_fun p ^^ Suc k) x" by simp
  from funpow_inj_diff [OF perm_fun_inj [OF assms(1)] this] assms(4)
  have "(perm_fun p ^^ (Suc k - t)) x = x" by simp
  moreover have "0 < Suc k - t" "Suc k - t < m" using assms(3,4,5) by simp_all
  ultimately show False using assms(2) by (simp add: is_period_def)
qed

lemma follow_cycle_from:
  assumes v: "valid_permutation p n" and x: "x < n" and m: "is_period p x m"
    and c: "closed_marks p n vis" and new: "Some x \<notin> set vis"
  shows "k \<le> m \<Longrightarrow>
    follow_cycle p (marks p x k @ vis) (Some ((perm_fun p ^^ k) x)) k = (marks p x m @ vis, Some x, m)"
proof (induction "m - k" arbitrary: k)
  case 0
  then have km: "k = m" by simp
  have ret: "(perm_fun p ^^ m) x = x" and pos: "1 \<le> m" using m by (simp_all add: is_period_def)
  have "p_at p (Some x) = Some ((perm_fun p ^^ 1) x)" using p_at_perm_fun [OF v x] by simp
  moreover have "Some ((perm_fun p ^^ 1) x) \<in> set (marks p x m)"
    unfolding set_marks using pos by (intro imageI) simp
  ultimately have "p_at p (Some x) \<in> set (marks p x m @ vis)" by simp
  then show ?case unfolding km ret by (subst follow_cycle.simps) simp
next
  case (Suc d)
  then have km: "k < m" by simp
  have j: "(perm_fun p ^^ k) x < n" using v x by (rule perm_funpow_less)
  have nxt: "p_at p (Some ((perm_fun p ^^ k) x)) = Some ((perm_fun p ^^ Suc k) x)"
    using p_at_perm_fun [OF v j] by simp
  have "Some ((perm_fun p ^^ Suc k) x) \<notin> set vis"
    using closed_marks_funpow [OF v c x, of "Suc k"] new by simp
  moreover have "Some ((perm_fun p ^^ Suc k) x) \<notin> set (marks p x k)"
  proof
    assume "Some ((perm_fun p ^^ Suc k) x) \<in> set (marks p x k)"
    then have "\<exists>t\<in>{1..k}. Some ((perm_fun p ^^ Suc k) x) = Some ((perm_fun p ^^ t) x)"
      unfolding set_marks image_iff .
    then obtain t where "t \<in> {1..k}" and "Some ((perm_fun p ^^ Suc k) x) = Some ((perm_fun p ^^ t) x)"
      by blast
    then have t: "1 \<le> t" "t \<le> k" and "Some ((perm_fun p ^^ Suc k) x) = Some ((perm_fun p ^^ t) x)"
      by (simp_all only: atLeastAtMost_iff)
    then have "(perm_fun p ^^ Suc k) x = (perm_fun p ^^ t) x" by (simp only: option.inject)
    with period_no_early_return [OF v m t km] show False by (simp only: simp_thms)
  qed
  ultimately have fresh: "p_at p (Some ((perm_fun p ^^ k) x)) \<notin> set (marks p x k @ vis)"
    unfolding nxt by simp
  have "follow_cycle p (marks p x k @ vis) (Some ((perm_fun p ^^ k) x)) k =
      follow_cycle p (marks p x (Suc k) @ vis) (Some ((perm_fun p ^^ Suc k) x)) (Suc k)"
    using fresh by (subst follow_cycle.simps) (simp add: nxt marks_Suc)
  also have "\<dots> = (marks p x m @ vis, Some x, m)"
    using Suc.hyps(2) km by (intro Suc.hyps(1)) simp_all
  finally show ?case .
qed

lemma follow_cycle_result:
  assumes "valid_permutation p n" and "x < n" and "is_period p x m"
    and "closed_marks p n vis" and "Some x \<notin> set vis"
  shows "follow_cycle p vis (Some x) 0 = (marks p x m @ vis, Some x, m)"
  using follow_cycle_from [OF assms, of 0] by (simp add: marks_0)

lemma set_marks_orbit:
  assumes "is_period p x m"
  shows "set (marks p x m) = Some ` orbit p x"
proof -
  have ret: "(perm_fun p ^^ m) x = x" and pos: "0 < m" using assms by (simp_all add: is_period_def)
  have "(\<lambda>t. (perm_fun p ^^ t) x) ` {1..m} = (\<lambda>t. (perm_fun p ^^ t) x) ` {0..<m}"
  proof (intro set_eqI iffI)
    fix y assume "y \<in> (\<lambda>t. (perm_fun p ^^ t) x) ` {1..m}"
    then obtain t where t: "1 \<le> t" "t \<le> m" "y = (perm_fun p ^^ t) x" by auto
    then have "y = (perm_fun p ^^ (t mod m)) x" by (simp only: funpow_mod_eq [OF ret])
    moreover have "t mod m \<in> {0..<m}" using pos by simp
    ultimately show "y \<in> (\<lambda>t. (perm_fun p ^^ t) x) ` {0..<m}" by blast
  next
    fix y assume "y \<in> (\<lambda>t. (perm_fun p ^^ t) x) ` {0..<m}"
    then obtain t where t: "t < m" "y = (perm_fun p ^^ t) x" by auto
    show "y \<in> (\<lambda>t. (perm_fun p ^^ t) x) ` {1..m}"
    proof (cases "t = 0")
      case True
      with t ret have "y = (perm_fun p ^^ m) x" by simp
      moreover have "m \<in> {1..m}" using pos by simp
      ultimately show ?thesis by blast
    next
      case False
      with t have "t \<in> {1..m}" by simp
      with t(2) show ?thesis by blast
    qed
  qed
  then have "(\<lambda>t. (perm_fun p ^^ t) x) ` {1..m} = orbit p x"
    by (simp only: orbit_period(1) [OF assms])
  then have "Some ` ((\<lambda>t. (perm_fun p ^^ t) x) ` {1..m}) = Some ` orbit p x" by simp
  then show ?thesis by (simp only: set_marks image_image)
qed

lemma distinct_marks:
  assumes "is_period p x m"
  shows "distinct (marks p x m)"
proof (rule card_distinct)
  have "card (set (marks p x m)) = card (Some ` orbit p x)" by (simp only: set_marks_orbit [OF assms])
  also have "\<dots> = card (orbit p x)" by (rule card_image) simp
  also have "\<dots> = m" by (rule orbit_period(2) [OF assms])
  finally show "card (set (marks p x m)) = length (marks p x m)" by (simp add: length_marks)
qed

lemma orbit_pred_iff:
  assumes v: "valid_permutation p n" and x: "x < n" and y: "y < n"
  shows "perm_fun p y \<in> orbit p x \<longleftrightarrow> y \<in> orbit p x"
proof
  assume "y \<in> orbit p x"
  then show "perm_fun p y \<in> orbit p x" by (rule orbit_step)
next
  assume a: "perm_fun p y \<in> orbit p x"
  have "perm_fun p y \<in> orbit p y" using orbit_self by (rule orbit_step)
  then have "y \<in> orbit p (perm_fun p y)" by (rule orbit_sym [OF v y])
  moreover have "orbit p (perm_fun p y) = orbit p x" by (rule orbit_eq [OF v x a])
  ultimately show "y \<in> orbit p x" by (simp only:)
qed

lemma marks_fresh:
  assumes v: "valid_permutation p n" and c: "closed_marks p n vis"
    and x: "x < n" and new: "Some x \<notin> set vis"
  shows "Some ` orbit p x \<inter> set vis = {}"
proof (rule ccontr)
  assume "Some ` orbit p x \<inter> set vis \<noteq> {}"
  then obtain y where "y \<in> orbit p x" "Some y \<in> set vis" by blast
  then obtain k where "Some ((perm_fun p ^^ k) x) \<in> set vis" unfolding orbit_def by blast
  with closed_marks_funpow [OF v c x, of k] new show False by blast
qed

lemma scan_inv_step:
  assumes v: "valid_permutation p n" and inv: "scan_inv p n i vis"
    and x: "x < n" and below: "\<And>y. y < x \<Longrightarrow> Some y \<in> set vis"
    and new: "Some x \<notin> set vis" and m: "is_period p x m"
  shows "scan_inv p n x (marks p x m @ vis)"
proof -
  have d: "distinct vis" and b: "set vis \<subseteq> Some ` {..<n}" and c: "closed_marks p n vis"
    using inv by (simp_all add: scan_inv_def)
  have sm: "set (marks p x m) = Some ` orbit p x" by (rule set_marks_orbit [OF m])
  have 1: "distinct (marks p x m @ vis)"
    using distinct_marks [OF m] d marks_fresh [OF v c x new] unfolding distinct_append sm by blast
  have 2: "set (marks p x m @ vis) \<subseteq> Some ` {..<n}"
    using orbit_bounded [OF v x] b unfolding set_append sm by blast
  have 3: "\<forall>y<x. Some y \<in> set (marks p x m @ vis)"
    using below by simp
  have 4: "closed_marks p n (marks p x m @ vis)"
    unfolding closed_marks_def
  proof (intro allI impI)
    fix y assume y: "y < n"
    have "Some (perm_fun p y) \<in> set vis \<longleftrightarrow> Some y \<in> set vis"
      using c y by (simp add: closed_marks_def)
    moreover have "Some (perm_fun p y) \<in> Some ` orbit p x \<longleftrightarrow> Some y \<in> Some ` orbit p x"
      using orbit_pred_iff [OF v x y] by (simp only: inj_image_mem_iff [OF inj_Some])
    ultimately show "Some (perm_fun p y) \<in> set (marks p x m @ vis) \<longleftrightarrow> Some y \<in> set (marks p x m @ vis)"
      unfolding set_append sm by blast
  qed
  show ?thesis unfolding scan_inv_def using x 1 2 3 4 by (intro conjI) (simp_all only: less_imp_le)
qed

lemma unvisited_even_step:
  assumes v: "valid_permutation p n" and c: "closed_marks p n vis"
    and x: "x < n" and new: "Some x \<notin> set vis" and m: "is_period p x m"
  shows "unvisited_even p n vis = (if m mod 2 = 0 then 1 else 0) + unvisited_even p n (marks p x m @ vis)"
proof -
  have sm: "set (marks p x m) = Some ` orbit p x" by (rule set_marks_orbit [OF m])
  have ox: "orbit p x \<in> cycles p n" using x by (simp add: cycles_def)
  have cm: "card (orbit p x) = m" by (rule orbit_period(2) [OF m])
  have xnot: "\<not> Some ` orbit p x \<subseteq> set vis" using new orbit_self [of x p] by blast
  have other: "Some ` c \<subseteq> set (marks p x m @ vis) \<longleftrightarrow> Some ` c \<subseteq> set vis"
    if "c \<in> cycles p n" "c \<noteq> orbit p x" for c
  proof -
    have "disjnt c (orbit p x)" using cycles_disjoint [OF v] that ox by (simp add: pairwise_def)
    then have "Some ` c \<inter> Some ` orbit p x = {}" by (auto simp: disjnt_def)
    then show ?thesis unfolding set_append sm by blast
  qed
  have self: "Some ` orbit p x \<subseteq> set (marks p x m @ vis)" unfolding set_append sm by blast
  let ?A = "{c \<in> cycles p n. even (card c) \<and> \<not> Some ` c \<subseteq> set vis}"
  let ?B = "{c \<in> cycles p n. even (card c) \<and> \<not> Some ` c \<subseteq> set (marks p x m @ vis)}"
  have fB: "finite ?B" using cycles_finite [of p n] by simp
  have notin: "orbit p x \<notin> ?B" using self by simp
  show ?thesis
  proof (cases "m mod 2 = 0")
    case True
    then have ev: "even (card (orbit p x))" using cm by presburger
    have "?A = insert (orbit p x) ?B"
    proof (intro set_eqI iffI)
      fix c assume "c \<in> ?A"
      then show "c \<in> insert (orbit p x) ?B" using other by blast
    next
      fix c assume "c \<in> insert (orbit p x) ?B"
      then show "c \<in> ?A" using other ox ev xnot by blast
    qed
    then have "card ?A = Suc (card ?B)" using fB notin by simp
    with True show ?thesis by (simp add: unvisited_even_def)
  next
    case False
    then have od: "\<not> even (card (orbit p x))" using cm by presburger
    have "?A = ?B"
    proof (intro set_eqI iffI)
      fix c assume "c \<in> ?A"
      then show "c \<in> ?B" using other od by blast
    next
      fix c assume "c \<in> ?B"
      then show "c \<in> ?A" using other od by blast
    qed
    with False show ?thesis by (simp add: unvisited_even_def)
  qed
qed

lemma scan_inv_length:
  assumes "scan_inv p n i vis" and "x < n" and "Some x \<notin> set vis"
  shows "length vis < n"
proof -
  have d: "distinct vis" and b: "set vis \<subseteq> Some ` {..<n}" using assms(1) by (simp_all add: scan_inv_def)
  have "set vis \<subseteq> Some ` {..<n} - {Some x}" using b assms(3) by blast
  then have "card (set vis) \<le> card (Some ` {..<n} - {Some x})" by (intro card_mono) simp_all
  also have "\<dots> < card (Some ` {..<n})" using assms(2) by (intro card_Diff1_less) simp_all
  also have "\<dots> = n" by (simp add: card_image)
  finally show ?thesis using d by (simp add: distinct_card)
qed

lemma scan_inv_done:
  assumes inv: "scan_inv p n i vis" and below: "\<And>y. y < x \<Longrightarrow> Some y \<in> set vis"
    and x: "n \<le> x" and new: "Some x \<notin> set vis" and ix: "i \<le> x"
  shows "x = n" and "set vis = Some ` {..<n}"
proof -
  have b: "set vis \<subseteq> Some ` {..<n}" using inv by (simp add: scan_inv_def)
  show "x = n"
  proof (rule ccontr)
    assume "x \<noteq> n"
    with x have "n < x" by simp
    then have "Some n \<in> set vis" by (rule below)
    with b show False by auto
  qed
  show "set vis = Some ` {..<n}" using b below x by auto
qed

lemma unvisited_even_done:
  assumes v: "valid_permutation p n" and all: "set vis = Some ` {..<n}"
  shows "unvisited_even p n vis = 0"
proof -
  have "Some ` c \<subseteq> set vis" if "c \<in> cycles p n" for c
  proof -
    from that obtain x where "x < n" "c = orbit p x" unfolding cycles_def by blast
    with orbit_bounded [OF v] have "c \<subseteq> {..<n}" by blast
    then show ?thesis unfolding all by blast
  qed
  then have "{c \<in> cycles p n. even (card c) \<and> \<not> Some ` c \<subseteq> set vis} = {}" by blast
  then show ?thesis by (simp only: unvisited_even_def card.empty)
qed

lemma unvisited_even_start: "unvisited_even p n [] = even_cycle_count p n"
proof -
  have "\<not> Some ` c \<subseteq> set []" if "c \<in> cycles p n" for c
  proof -
    from that obtain x where "c = orbit p x" unfolding cycles_def by blast
    with orbit_self [of x p] show ?thesis by auto
  qed
  then have "{c \<in> cycles p n. even (card c) \<and> \<not> Some ` c \<subseteq> set []} = {c \<in> cycles p n. even (card c)}"
    by blast
  then show ?thesis by (simp only: unvisited_even_def even_cycle_count_def)
qed

lemma scan_inv_start: "scan_inv p n 0 []"
  by (simp add: scan_inv_def closed_marks_def)

lemma count_cycles_result:
  assumes v: "valid_permutation p n"
  shows "scan_inv p n i vis \<Longrightarrow>
    \<exists>vis'. count_cycles p n ec i vis = Some (ec + unvisited_even p n vis, n, vis') \<and>
      distinct vis' \<and> set vis' = Some ` {..<n}"
proof (induction "n - length vis" arbitrary: ec i vis rule: less_induct)
  case less
  note inv = less.prems
  define x where "x = skip_visited vis i"
  have ix: "i \<le> x" and new: "Some x \<notin> set vis"
    and mid: "\<And>y. i \<le> y \<Longrightarrow> y < x \<Longrightarrow> Some y \<in> set vis"
    using skip_visited_spec [of i vis] unfolding x_def by blast+
  have low: "\<And>y. y < i \<Longrightarrow> Some y \<in> set vis" using inv by (simp add: scan_inv_def)
  have below: "Some y \<in> set vis" if "y < x" for y
    using that low [of y] mid [of y] by (cases "y < i") simp_all
  show ?case
  proof (cases "n \<le> x")
    case True
    from scan_inv_done [OF inv below True new ix]
    have xn: "x = n" and all: "set vis = Some ` {..<n}" by blast+
    have "count_cycles p n ec i vis = Some (ec, x, vis)"
      using True by (subst count_cycles.simps) (simp add: x_def)
    moreover have "distinct vis" using inv by (simp add: scan_inv_def)
    ultimately show ?thesis using xn all unvisited_even_done [OF v all] by simp
  next
    case False
    then have xl: "x < n" by simp
    from perm_period_ex [OF v xl] obtain m where m: "is_period p x m"
      unfolding is_period_def by blast
    have c: "closed_marks p n vis" using inv by (simp add: scan_inv_def)
    have fc: "follow_cycle p vis (Some x) 0 = (marks p x m @ vis, Some x, m)"
      by (rule follow_cycle_result [OF v xl m c new])
    have unf: "count_cycles p n ec i vis =
        count_cycles p n (if m mod 2 = 0 then ec + 1 else ec) x (marks p x m @ vis)"
      using False by (subst count_cycles.simps) (simp add: x_def [symmetric] fc)
    have inv': "scan_inv p n x (marks p x m @ vis)"
      by (rule scan_inv_step [OF v inv xl below new m])
    have "length vis < n" by (rule scan_inv_length [OF inv xl new])
    moreover have "0 < m" using m by (simp add: is_period_def)
    ultimately have dec: "n - length (marks p x m @ vis) < n - length vis"
      by (simp add: length_marks)
    from less.hyps [OF dec inv', of "if m mod 2 = 0 then ec + 1 else ec"]
    obtain vis' where r: "count_cycles p n (if m mod 2 = 0 then ec + 1 else ec) x (marks p x m @ vis) =
        Some ((if m mod 2 = 0 then ec + 1 else ec) + unvisited_even p n (marks p x m @ vis), n, vis')"
      and d: "distinct vis'" and s: "set vis' = Some ` {..<n}"
      by blast
    have "(if m mod 2 = 0 then ec + 1 else ec) + unvisited_even p n (marks p x m @ vis) =
        ec + unvisited_even p n vis"
      using unvisited_even_step [OF v c xl new m] by simp
    with unf r d s show ?thesis by simp
  qed
qed

lemma count_cycles_valid:
  assumes "valid_permutation p n"
  shows "\<exists>vis. count_cycles p n 0 0 [] = Some (even_cycle_count p n, n, vis) \<and>
      distinct vis \<and> set vis = Some ` {..<n}"
  using count_cycles_result [OF assms scan_inv_start, of 0] by (simp add: unvisited_even_start)

text \<open>
  Claim C9. For a valid permutation \<open>p\<close> of \<open>[0, n)\<close> the scan returns, with \<open>i = n\<close>, and
  has then assigned each index below \<open>n\<close> exactly once and nothing else: the list of the
  assignments is distinct, its set is the set of the indices, its length is \<open>n\<close>. The
  inner loop ran \<open>n\<close> times in all and \<open>i\<close> was incremented \<open>n\<close> times, however many
  cycles there are. (The statement needs no \<open>n \<ge> 1\<close>.)
\<close>

theorem cycle_scan_terminates:
  assumes "valid_permutation p n"
  shows "\<exists>evenCycles vis. count_cycles p n 0 0 [] = Some (evenCycles, n, vis) \<and>
      distinct vis \<and> set vis = Some ` {..<n} \<and> length vis = n"
proof -
  from count_cycles_valid [OF assms] obtain vis
    where r: "count_cycles p n 0 0 [] = Some (even_cycle_count p n, n, vis)"
      and d: "distinct vis" and s: "set vis = Some ` {..<n}"
    by blast
  have "length vis = card (set vis)" using d by (simp add: distinct_card)
  also have "\<dots> = n" unfolding s by (simp add: card_image)
  finally have "length vis = n" .
  with r d s show ?thesis by blast
qed

theorem cycle_scan_terminates_witness:
  "valid_permutation [1, 2, 0, 4, 3] 5 \<and>
   count_cycles [1, 2, 0, 4, 3] 5 0 0 [] = Some (1, 5, [Some 3, Some 4, Some 0, Some 2, Some 1])"
proof -
  have v: "valid_permutation [1, 2, 0, 4, 3] 5" by (simp add: valid_permutation_def)
  from cycle_scan_terminates [OF v] obtain ec vis
    where "count_cycles [1, 2, 0, 4, 3] 5 0 0 [] = Some (ec, 5, vis)" by blast
  moreover have "count_cycles [1, 2, 0, 4, 3] 5 0 0 [] = Some (1, 5, [Some 3, Some 4, Some 0, Some 2, Some 1])"
    by code_simp
  ultimately show ?thesis using v by simp
qed

lemma fixed_point_cycle_length:
  assumes "x < length p" and "p ! x = x" and "Some x \<notin> set vis"
  shows "follow_cycle p vis (Some x) 0 = (Some x # vis, Some x, 1)"
proof -
  have a: "p_at p (Some x) = Some x" using assms(1,2) by (simp add: p_at_def)
  have "follow_cycle p vis (Some x) 0 = follow_cycle p (Some x # vis) (Some x) 1"
    using assms(3) by (subst follow_cycle.simps) (simp add: a)
  also have "\<dots> = (Some x # vis, Some x, 1)"
    by (subst follow_cycle.simps) (simp add: a)
  finally show ?thesis .
qed

text \<open>
  Claim C2. For a valid permutation \<open>p\<close> of \<open>[0, n)\<close> with \<open>c\<close> cycles, \<open>(-1)^(n - c)\<close> is
  \<open>+1\<close> when the number of even-length cycles is even and \<open>-1\<close> otherwise; the count
  \<open>evenCycles\<close> the code ends with is that number of even-length cycles; and a fixed point
  is followed as a cycle of length 1, so it is not counted as even.
\<close>

theorem even_cycle_rule_agrees:
  assumes "valid_permutation p n"
  shows "(- 1 :: int) ^ (n - cycle_count p n) = (if even (even_cycle_count p n) then 1 else - 1) \<and>
    (\<exists>i vis. count_cycles p n 0 0 [] = Some (even_cycle_count p n, i, vis)) \<and>
    (\<forall>x vis. x < n \<and> p ! x = x \<and> Some x \<notin> set vis \<longrightarrow>
       follow_cycle p vis (Some x) 0 = (Some x # vis, Some x, 1))"
proof (intro conjI allI impI)
  show "(- 1 :: int) ^ (n - cycle_count p n) = (if even (even_cycle_count p n) then 1 else - 1)"
    using cycles_parity [OF assms] by simp
  show "\<exists>i vis. count_cycles p n 0 0 [] = Some (even_cycle_count p n, i, vis)"
    using count_cycles_valid [OF assms] by blast
  fix x vis assume "x < n \<and> p ! x = x \<and> Some x \<notin> set vis"
  moreover have "length p = n" using assms by (simp add: valid_permutation_def)
  ultimately show "follow_cycle p vis (Some x) 0 = (Some x # vis, Some x, 1)"
    by (intro fixed_point_cycle_length) simp_all
qed

theorem even_cycle_rule_agrees_witness:
  "valid_permutation [1, 2, 3, 0, 4, 6, 5] 7 \<and>
   even_cycle_count [1, 2, 3, 0, 4, 6, 5] 7 = 2 \<and>
   (- 1 :: int) ^ (7 - cycle_count [1, 2, 3, 0, 4, 6, 5] 7) = 1"
proof -
  have v: "valid_permutation [1, 2, 3, 0, 4, 6, 5] 7" by (simp add: valid_permutation_def)
  have c: "count_cycles [1, 2, 3, 0, 4, 6, 5] 7 0 0 [] =
      Some (2, 7, [Some 5, Some 6, Some 4, Some 0, Some 3, Some 2, Some 1])"
    by code_simp
  from even_cycle_rule_agrees [OF v] c have e: "even_cycle_count [1, 2, 3, 0, 4, 6, 5] 7 = 2"
    by auto
  with even_cycle_rule_agrees [OF v] v show ?thesis by simp
qed

subsection \<open>The general case of the evaluator\<close>

lemma js_get2_entry:
  fixes a :: "'a val"
  assumes "square_array n a" and "i < n" and "j < n"
  shows "(js_get2 a i j :: 'e error + 'a val) = Inr (entry a i j)"
proof -
  from assms(1) obtain rs where a: "a = Arr rs" and l: "length rs = n"
    and r: "list_all (\<lambda>r. case r of Arr cs \<Rightarrow> length cs = n | _ \<Rightarrow> False) rs"
    by (auto simp: square_array_def split: val.splits)
  from r l assms(2) have "case rs ! i of Arr cs \<Rightarrow> length cs = n | _ \<Rightarrow> False"
    by (simp add: list_all_length)
  then obtain cs where c: "rs ! i = Arr cs" "length cs = n" by (auto split: val.splits)
  show ?thesis using a l c assms(2,3) by (simp add: js_get2_def entry_def)
qed

lemma diag_product_foldl:
  fixes ops :: "('a, 'e) ops"
  assumes "square_array n u"
  shows "i \<le> n \<Longrightarrow>
    diag_product ops u n i d = Inr (foldl (multiply ops) d (map (\<lambda>k. entry u k k) [i..<n]))"
proof (induction "n - i" arbitrary: i d)
  case 0
  then show ?case by (subst diag_product.simps) simp
next
  case (Suc k)
  then have l: "i < n" by simp
  have g: "(js_get2 u i i :: 'e error + 'a val) = Inr (entry u i i)"
    using assms l l by (rule js_get2_entry)
  have "diag_product ops u n i d = diag_product ops u n (i + 1) (multiply ops d (entry u i i))"
    using l by (subst diag_product.simps) (simp add: g)
  also have "\<dots> = Inr (foldl (multiply ops) (multiply ops d (entry u i i)) (map (\<lambda>k. entry u k k) [i + 1..<n]))"
    using Suc.hyps(2) l by (intro Suc.hyps(1)) simp_all
  also have "\<dots> = Inr (foldl (multiply ops) d (map (\<lambda>k. entry u k k) [i..<n]))"
    using l by (simp add: upt_conv_Cons)
  finally show ?case .
qed

text \<open>
  Claim C1. Let the argument present an \<open>n\<close> by \<open>n\<close> matrix with \<open>n \<ge> 3\<close>, and let \<open>lup\<close>
  answer with an \<open>n\<close> by \<open>n\<close> array \<open>U\<close> and a valid permutation \<open>p\<close>. Then \<open>det\<close> returns
  the diagonal entries of \<open>U\<close> multiplied from left to right with \<open>multiply\<close>, as it is when
  the number of even-length cycles of \<open>p\<close> is even, and under \<open>unaryMinus\<close> when it is odd.
\<close>

theorem det_general_case:
  fixes ops :: "('a, 'e) ops"
  assumes "presents ops x [n, n] m" and "3 \<le> n" and "lup ops m = Inr dc"
    and "square_array n (decomp_U dc)" and "valid_permutation (decomp_p dc) n"
  shows "det ops x =
    Some (Inr (if even (even_cycle_count (decomp_p dc) n)
               then foldl (multiply ops) (entry (decomp_U dc) 0 0)
                      (map (\<lambda>i. entry (decomp_U dc) i i) [1..<n])
               else unaryMinus ops
                      (foldl (multiply ops) (entry (decomp_U dc) 0 0)
                         (map (\<lambda>i. entry (decomp_U dc) i i) [1..<n]))))"
proof -
  have d: "dispatch ops x = Inr (Delegate m n n)"
    using dispatch_presents [OF assms(1)] by (simp add: dispatch_size_def clone_def)
  have g: "(js_get2 (decomp_U dc) 0 0 :: 'e error + 'a val) = Inr (entry (decomp_U dc) 0 0)"
    using assms(2) by (intro js_get2_entry [OF assms(4)]) simp_all
  have f: "diag_product ops (decomp_U dc) n 1 (entry (decomp_U dc) 0 0) =
      Inr (foldl (multiply ops) (entry (decomp_U dc) 0 0) (map (\<lambda>i. entry (decomp_U dc) i i) [1..<n]))"
    using assms(2) by (intro diag_product_foldl [OF assms(4)]) simp
  from count_cycles_valid [OF assms(5)] obtain vis
    where c: "count_cycles (decomp_p dc) n 0 0 [] = Some (even_cycle_count (decomp_p dc) n, n, vis)"
    by blast
  have n: "n \<noteq> 1" "n \<noteq> 2" using assms(2) by simp_all
  show ?thesis
    unfolding det_def d
    by (simp add: private_det_def n assms(3) g f c even_iff_mod_2_eq_zero del: One_nat_def)
qed

theorem det_general_case_witness:
  "presents (int_ops lup_example) (Arr [Arr [El 0, El 3, El 1], Arr [El 2, El 0, El 0], Arr [El 0, El 0, El 5]])
     [3, 3] (Arr [Arr [El 0, El 3, El 1], Arr [El 2, El 0, El 0], Arr [El 0, El 0, El 5]]) \<and>
   (3::nat) \<le> 3 \<and>
   square_array 3 (Arr [Arr [El 2, El 0, El 0], Arr [El 0, El 3, El 1], Arr [El 0, El 0, El (5::int)]]) \<and>
   valid_permutation [1, 0, 2] 3 \<and>
   odd (even_cycle_count [1, 0, 2] 3) \<and>
   det (int_ops lup_example) (Arr [Arr [El 0, El 3, El 1], Arr [El 2, El 0, El 0], Arr [El 0, El 0, El 5]]) =
     Some (Inr (El (- 30)))"
proof -
  let ?x = "Arr [Arr [El 0, El 3, El 1], Arr [El 2, El 0, El 0], Arr [El 0, El 0, El (5::int)]]"
  let ?dc = "\<lparr> decomp_L = Arr [Arr [El 1, El 0, El 0], Arr [El 0, El 1, El 0], Arr [El 0, El 0, El 1]],
           decomp_U = Arr [Arr [El 2, El 0, El 0], Arr [El 0, El 3, El 1], Arr [El 0, El 0, El (5::int)]],
           decomp_p = [1, 0, 2] \<rparr>"
  have p: "presents (int_ops lup_example) ?x [3, 3] ?x" by (simp add: presents_def int_ops_def)
  have n: "(3::nat) \<le> 3" by simp
  have l: "lup (int_ops lup_example) ?x = Inr ?dc" by (simp add: int_ops_def lup_example_def)
  have s: "square_array 3 (decomp_U ?dc)" by (simp add: square_array_def)
  have v: "valid_permutation (decomp_p ?dc) 3" by (simp add: valid_permutation_def)
  have e: "det (int_ops lup_example) ?x = Some (Inr (El (- 30)))" by code_simp
  have prod: "foldl (multiply (int_ops lup_example)) (entry (decomp_U ?dc) 0 0)
      (map (\<lambda>i. entry (decomp_U ?dc) i i) [1..<3]) = El 30"
    by code_simp
  have um: "unaryMinus (int_ops lup_example) (El 30) = El (- 30)" by (simp add: int_ops_def)
  have "det (int_ops lup_example) ?x =
      Some (Inr (if even (even_cycle_count (decomp_p ?dc) 3) then El 30 else El (- 30)))"
    using det_general_case [OF p n l s v] unfolding prod um .
  with e have "odd (even_cycle_count [1, 0, 2] 3)"
    by (auto split: if_splits)
  with p n s v e show ?thesis by simp
qed

subsection \<open>The caller's values\<close>

lemma preserves_refl: "preserves h h"
  by (simp add: preserves_def)

lemma preserves_trans: "preserves h h1 \<Longrightarrow> preserves h1 h2 \<Longrightarrow> preserves h h2"
  by (auto simp: preserves_def)

lemma preserves_clone_array: "clone_array h a = (a', h') \<Longrightarrow> preserves h h' \<and> a' = length h"
  by (auto simp: clone_array_def alloc_def preserves_def nth_append)

lemma private_det_store_frame:
  assumes "lup_frame lup_st"
  shows "length h \<le> length (snd (private_det_store ops lup_st h a rows cols)) \<and>
    (\<forall>b<length h. b \<noteq> a \<longrightarrow> snd (private_det_store ops lup_st h a rows cols) ! b = h ! b)"
proof (cases "rows = 1 \<or> rows = 2")
  case True
  then show ?thesis by (simp add: private_det_store_def)
next
  case False
  then have "snd (private_det_store ops lup_st h a rows cols) = snd (lup_st h a)"
    by (simp add: private_det_store_def split: prod.split)
  then show ?thesis using assms by (simp add: lup_frame_def)
qed

lemma switch_store_preserves:
  assumes "lup_frame lup_st"
  shows "preserves h (snd (switch_store ops lup_st h sz a))"
proof -
  consider "sz = []" | len where "sz = [len]" | rows cols where "sz = [rows, cols]"
    | "3 \<le> length sz"
    by (cases sz rule: list.exhaust; cases "tl sz"; cases "tl (tl sz)") auto
  then show ?thesis
  proof cases
    case 1
    then show ?thesis
      by (simp add: switch_store_def clone_array_def alloc_def preserves_def nth_append)
  next
    case 2
    then show ?thesis
      by (simp add: switch_store_def preserves_refl split: sum.split)
  next
    case 3
    show ?thesis
    proof (cases "rows = cols")
      case False
      with 3 show ?thesis by (simp add: switch_store_def preserves_refl)
    next
      case True
      let ?h1 = "h @ [deref h a]"
      let ?h2 = "snd (private_det_store ops lup_st ?h1 (length h) rows cols)"
      have s: "snd (switch_store ops lup_st h sz a) = ?h2"
        using 3 True by (simp add: switch_store_def clone_array_def alloc_def split: prod.split)
      from private_det_store_frame [OF assms, of ?h1 ops "length h" rows cols]
      have l: "length ?h1 \<le> length ?h2"
        and f: "\<And>b. b < length ?h1 \<Longrightarrow> b \<noteq> length h \<Longrightarrow> ?h2 ! b = ?h1 ! b"
        by blast+
      have "?h2 ! b = h ! b" if "b < length h" for b
        using f [of b] that by (simp add: nth_append)
      moreover have "length h \<le> length ?h2" using l by simp
      ultimately show ?thesis unfolding s preserves_def by blast
    qed
  next
    case 4
    then show ?thesis
      by (auto simp: switch_store_def preserves_refl split: list.split)
  qed
qed

text \<open>
  Claim C8 says that \<open>det\<close> never changes the caller's value, whatever the argument, because
  a clone is taken before the evaluator runs. For a plain array that is not so: line 47 hands
  the caller's own array to \<open>matrix(x)\<close>, and the clone of line 73 is taken only afterwards.
  With a constructor that normalises its argument in place, \<open>det\<close> of the array of the two
  Matrix rows \<open>[1, 2]\<close> and \<open>[3, 4]\<close> returns \<open>-2\<close> and leaves the caller's array holding
  plain arrays where it held Matrix objects; \<open>lup\<close> keeps to its frame, and is not even
  called.
\<close>

theorem det_changes_callers_array:
  "lup_frame lup_scribbles \<and>
   det_store (int_ops lup_throws) lup_scribbles matrix_unwraps
       [Arr [Mat [2] (Arr [El 1, El 2]), Mat [2] (Arr [El 3, El 4])]] (ArrayRef 0) =
     (Some (Inr (Scalar (El (- 2)))),
      [Arr [Arr [El 1, El 2], Arr [El 3, El 4]], Arr [Arr [El 1, El 2], Arr [El 3, El 4]]]) \<and>
   [Arr [Arr [El 1, El 2], Arr [El 3, El 4]], Arr [Arr [El 1, El 2], Arr [El 3, El (4::int)]]] ! 0 \<noteq>
     [Arr [Mat [2] (Arr [El 1, El 2]), Mat [2] (Arr [El 3, El 4])]] ! 0"
proof -
  have a: "lup_frame lup_scribbles" by (simp add: lup_frame_def lup_scribbles_def)
  have b: "det_store (int_ops lup_throws) lup_scribbles matrix_unwraps
       [Arr [Mat [2] (Arr [El 1, El 2]), Mat [2] (Arr [El 3, El 4])]] (ArrayRef 0) =
     (Some (Inr (Scalar (El (- 2)))),
      [Arr [Arr [El 1, El 2], Arr [El 3, El 4]], Arr [Arr [El 1, El 2], Arr [El 3, El 4]]])"
    by (simp add: det_store_def matrix_unwraps_def deref_def switch_store_def clone_array_def
        alloc_def private_det_store_def private_det_def js_get2_def result_ref_def int_ops_def
        clone_def)
  show ?thesis using a b by simp
qed

text \<open>
  Claim C8 as amended. Let \<open>lup\<close> write only to the array it is given. Whether the call
  returns or throws, every array object has after the call the contents it had when the
  \<open>switch\<close> was reached: \<open>det\<close> itself writes to no array, and \<open>lup\<close> is handed the
  backing store of a fresh clone. So for a scalar and for a Matrix argument every array that
  existed before the call is unchanged after it; for a plain array argument the arrays are as
  \<open>matrix(x)\<close> left them. The instance that follows runs a \<open>lup\<close> that overwrites its
  argument: the clone at address 1 is overwritten, the caller's array at address 0 is not.
\<close>

theorem det_preserves_after_matrix:
  assumes "lup_frame lup_st" and "det_store ops lup_st matrix_st h x = (r, h')"
  shows "preserves (after_matrix matrix_st h x) h' \<and>
    ((case x of ArrayRef a \<Rightarrow> False | _ \<Rightarrow> True) \<longrightarrow>
       length h \<le> length h' \<and> (\<forall>b<length h. h' ! b = h ! b))"
proof -
  have p: "preserves (after_matrix matrix_st h x) (snd (det_store ops lup_st matrix_st h x))"
  proof (cases x)
    case (Scalar v)
    then show ?thesis by (simp add: det_store_def after_matrix_def preserves_refl)
  next
    case (MatrixObj sz a)
    then show ?thesis
      using switch_store_preserves [OF assms(1)] by (simp add: det_store_def after_matrix_def)
  next
    case (ArrayRef a)
    obtain ans h1 where m: "matrix_st h a = (ans, h1)" by (cases "matrix_st h a")
    show ?thesis
    proof (cases ans)
      case (Inl e)
      with ArrayRef m show ?thesis by (simp add: det_store_def after_matrix_def preserves_refl)
    next
      case (Inr q)
      obtain sz a1 where q: "q = (sz, a1)" by (cases q)
      have "preserves h1 (snd (switch_store ops lup_st h1 sz a1))"
        by (rule switch_store_preserves [OF assms(1)])
      with ArrayRef m Inr q show ?thesis by (simp add: det_store_def after_matrix_def)
    qed
  qed
  then have 1: "preserves (after_matrix matrix_st h x) h'" using assms(2) by simp
  have 2: "length h \<le> length h' \<and> (\<forall>b<length h. h' ! b = h ! b)"
    if "case x of ArrayRef a \<Rightarrow> False | _ \<Rightarrow> True"
  proof -
    from that have "after_matrix matrix_st h x = h"
      by (cases x) (simp_all add: after_matrix_def)
    with 1 show ?thesis by (simp add: preserves_def)
  qed
  from 1 2 show ?thesis by blast
qed

theorem det_preserves_after_matrix_witness:
  "lup_frame lup_scribbles \<and>
   det_store (int_ops lup_throws) lup_scribbles matrix_wraps
       [Arr [Arr [El 1, El 2, El 3], Arr [El 4, El 5, El 6], Arr [El 7, El 8, El 9]]]
       (MatrixObj [3, 3] 0) =
     (Some (Inl (Thrown ())),
      [Arr [Arr [El 1, El 2, El 3], Arr [El 4, El 5, El 6], Arr [El 7, El 8, El 9]], Undef]) \<and>
   preserves [Arr [Arr [El 1, El 2, El 3], Arr [El 4, El 5, El 6], Arr [El 7, El 8, El (9::int)]]]
     [Arr [Arr [El 1, El 2, El 3], Arr [El 4, El 5, El 6], Arr [El 7, El 8, El 9]], Undef] \<and>
   snd (lup_scribbles [Arr [Arr [El 1, El 2, El 3], Arr [El 4, El 5, El 6], Arr [El 7, El 8, El 9]]] 0) =
     [Undef]"
proof -
  let ?A = "Arr [Arr [El 1, El 2, El 3], Arr [El 4, El 5, El 6], Arr [El 7, El 8, El (9::int)]]"
  have a: "lup_frame lup_scribbles" by (simp add: lup_frame_def lup_scribbles_def)
  have c: "det_store (int_ops lup_throws) lup_scribbles matrix_wraps [?A] (MatrixObj [3, 3] 0) =
      (Some (Inl (Thrown ())), [?A, Undef])"
    by (simp add: det_store_def deref_def switch_store_def clone_array_def alloc_def
        private_det_store_def lup_scribbles_def private_det_def result_ref_def)
  have d: "snd (lup_scribbles [?A] 0) = [Undef]" by (simp add: lup_scribbles_def)
  from det_preserves_after_matrix [OF a c]
  have "preserves (after_matrix matrix_wraps [?A] (MatrixObj [3, 3] 0)) [?A, Undef]" by blast
  then have "preserves [?A] [?A, Undef]" by (simp add: after_matrix_def)
  with a c d show ?thesis by simp
qed

text \<open>
  The store model computes what \<open>det\<close> computes: on a Matrix argument its result is that of
  \<open>det\<close> on the contents, with the answer \<open>lup\<close> gave on the clone.
\<close>

lemma private_det_small:
  "rows = 1 \<or> rows = 2 \<Longrightarrow> private_det (ops\<lparr>lup := l\<rparr>) m rows cols = private_det ops m rows cols"
  by (auto simp: private_det_def split: sum.split)

lemma det_store_refines_det:
  assumes "sz \<noteq> []"
  shows "fst (det_store ops lup_st matrix_st h (MatrixObj sz a)) =
    result_ref (det (ops\<lparr>lup := \<lambda>m. fst (lup_st (h @ [deref h a]) (length h))\<rparr>) (Mat sz (deref h a)))"
proof -
  consider len where "sz = [len]" | rows cols where "sz = [rows, cols]" | "3 \<le> length sz"
    using assms by (cases sz rule: list.exhaust; cases "tl sz"; cases "tl (tl sz)") auto
  then show ?thesis
  proof cases
    case 1
    then show ?thesis
      by (simp add: det_store_def switch_store_def det_def dispatch_def dispatch_size_def
          result_ref_def clone_def split: sum.split)
  next
    case 2
    have d: "deref (h @ [deref h a]) (length h) = deref h a" by (simp add: deref_def)
    show ?thesis
    proof (cases "rows = cols")
      case False
      with 2 show ?thesis
        by (simp add: det_store_def switch_store_def det_def dispatch_def dispatch_size_def result_ref_def)
    next
      case True
      show ?thesis
      proof (cases "rows = 1 \<or> rows = 2")
        case small: True
        with 2 True show ?thesis
          by (simp add: det_store_def switch_store_def det_def dispatch_def dispatch_size_def
              clone_array_def alloc_def private_det_store_def d clone_def private_det_small
              del: One_nat_def)
      next
        case False
        with 2 True show ?thesis
          by (simp add: det_store_def switch_store_def det_def dispatch_def dispatch_size_def
              clone_array_def alloc_def private_det_store_def d clone_def split: prod.split
              del: One_nat_def)
      qed
    qed
  next
    case 3
    then show ?thesis
      by (auto simp: det_store_def switch_store_def det_def dispatch_def dispatch_size_def
          result_ref_def split: list.split)
  qed
qed

end
